theory Spec2Isabelle
  imports Main
begin

section \<open>CUDA tracing context: event pool, free list, submission queue\<close>

text \<open>
  A shallow embedding of the device tracing context of the CUDA HAL driver
  (the file that defines \<open>iree_hal_cuda_tracing_context_t\<close>).

  Pointers into \<open>event_pool\<close> are pool indexes: \<open>None\<close> is \<open>NULL\<close> and
  \<open>Some i\<close> is \<open>&context->event_pool[i]\<close>. Reading through \<open>NULL\<close> or through an
  index outside the pool is a fault of the model, not an unspecified value.
  The mutex is not modelled: every function below is one critical section.
  The functions take the context by value, so the guard \<open>if (!context) return;\<close>
  of the C functions (a null context, nothing happens) has no counterpart.
\<close>

subsection \<open>Data\<close>

type_synonym event_ptr = "nat option"
type_synonym cuevent = nat

record event_t =
  event :: cuevent
  next_in_command_buffer :: event_ptr
  next_submission :: event_ptr
  was_submitted :: bool

record event_list_t =
  head :: event_ptr
  tail :: event_ptr

record context_t =
  id' :: nat
  base_event :: cuevent
  event_freelist_head :: event_ptr
  submitted_event_list :: event_list_t
  query_capacity :: nat
  verbosity :: nat
  event_pool :: "event_t list"

text \<open>
  The driver entry points the code calls through \<open>context->symbols\<close>. A call
  that returns a \<open>CUresult\<close> is modelled by whether it returns \<open>CUDA_SUCCESS\<close>.
  \<open>cuEventCreate\<close> is asked for the handle of pool slot \<open>i\<close> (slot
  \<open>query_capacity\<close> stands for the base event). \<open>cuEventElapsedTime\<close> yields the
  value \<open>(int64_t)((double)relative_millis * 1000000.0)\<close> that the code passes
  on; the floating-point conversion itself is not modelled.
\<close>

record cuda_symbols =
  cuEventCreate :: "nat \<Rightarrow> cuevent option"
  cuEventRecord :: "cuevent \<Rightarrow> bool"
  cuEventSynchronize :: "cuevent \<Rightarrow> bool"
  cuEventQuery :: "cuevent \<Rightarrow> bool"
  cuEventElapsedTime :: "cuevent \<Rightarrow> cuevent \<Rightarrow> int"
  cuGraphAddEventRecordNode :: "cuevent \<Rightarrow> bool"

text \<open>
  The sink: the calls \<open>iree_tracing_gpu_zone_notify(context_id, query_id,
  gpu_timestamp)\<close> in the order they are made.
\<close>

type_synonym notification = "nat \<times> nat \<times> int"
type_synonym sink = "notification list"

datatype failure =
  NullDereference
  | InvalidPointer
  | AssertionFailure
  | OutOfMemory
  | CudaError

text \<open>The casts \<open>(uint32_t)(event - &context->event_pool[0])\<close> and the
  \<open>uint16_t\<close> return type of the insert functions.\<close>

definition to_uint32 :: "nat \<Rightarrow> nat" where
  "to_uint32 n = n mod 2 ^ 32"

definition to_uint16 :: "nat \<Rightarrow> nat" where
  "to_uint16 n = n mod 2 ^ 16"

subsection \<open>Allocation of the pool\<close>

text \<open>
  The loop of \<open>iree_hal_cuda_tracing_context_allocate\<close> over the slots
  \<open>i = 0 ..< query_capacity\<close>, started on the memory \<open>malloc\<close> returned, whose
  contents are arbitrary. It stops at the first \<open>cuEventCreate\<close> that fails.
\<close>

function allocate_event_pool ::
  "cuda_symbols \<Rightarrow> nat \<Rightarrow> nat \<Rightarrow> event_t list \<Rightarrow> failure + event_t list" where
  "allocate_event_pool symbols capacity i pool =
     (if i < capacity then
        (case cuEventCreate symbols i of
           None \<Rightarrow> Inl CudaError
         | Some ev \<Rightarrow>
             let pool1 = pool[i := (pool ! i)\<lparr>event := ev\<rparr>];
                 pool2 = (if 0 < i
                          then pool1[i - 1 := (pool1 ! (i - 1))\<lparr>next_in_command_buffer := Some i\<rparr>]
                          else pool1);
                 pool3 = pool2[i := (pool2 ! i)\<lparr>next_submission := None\<rparr>];
                 pool4 = pool3[i := (pool3 ! i)\<lparr>was_submitted := False\<rparr>];
                 pool5 = (if i + 1 = capacity
                          then pool4[i := (pool4 ! i)\<lparr>next_in_command_buffer := None\<rparr>]
                          else pool4)
             in allocate_event_pool symbols capacity (i + 1) pool5)
      else Inr pool)"
  by pat_completeness auto
termination
  by (relation "measure (\<lambda>(symbols, capacity, i, pool). capacity - i)") auto

declare allocate_event_pool.simps [simp del]

text \<open>
  \<open>iree_hal_cuda_tracing_context_allocate\<close>. \<open>mem\<close> is what
  \<open>iree_allocator_malloc\<close> returned: \<open>None\<close> when it failed, otherwise the
  uninitialised context, whose \<open>event_pool\<close> array has its fixed size
  (\<open>IREE_ARRAYSIZE(context->event_pool)\<close>). \<open>zone_id\<close> is the identifier that
  \<open>iree_tracing_gpu_context_allocate\<close> hands out. On an error the context is
  released and the status returned.
\<close>

definition iree_hal_cuda_tracing_context_initial_calibration ::
  "cuda_symbols \<Rightarrow> cuevent \<Rightarrow> bool" where
  "iree_hal_cuda_tracing_context_initial_calibration symbols ev =
     (if \<not> cuEventRecord symbols ev then False
      else if \<not> cuEventSynchronize symbols ev then False
      else True)"

definition iree_hal_cuda_tracing_context_allocate ::
  "cuda_symbols \<Rightarrow> nat \<Rightarrow> context_t option \<Rightarrow> nat \<Rightarrow> failure + context_t" where
  "iree_hal_cuda_tracing_context_allocate symbols stream_tracing_verbosity mem zone_id =
     (case mem of
        None \<Rightarrow> Inl OutOfMemory
      | Some raw \<Rightarrow>
          let context0 = raw\<lparr>query_capacity := length (event_pool raw),
                             submitted_event_list := \<lparr>head = None, tail = None\<rparr>,
                             verbosity := stream_tracing_verbosity\<rparr>;
              context1 = context0\<lparr>event_freelist_head := Some 0\<rparr>
          in (case allocate_event_pool symbols (query_capacity context1) 0 (event_pool context1) of
                Inl e \<Rightarrow> Inl e
              | Inr pool \<Rightarrow>
                  (case cuEventCreate symbols (query_capacity context1) of
                     None \<Rightarrow> Inl CudaError
                   | Some base \<Rightarrow>
                       if \<not> iree_hal_cuda_tracing_context_initial_calibration symbols base
                       then Inl CudaError
                       else Inr (context1\<lparr>event_pool := pool, base_event := base,
                                          id' := zone_id\<rparr>))))"

subsection \<open>Collection\<close>

text \<open>
  The inner loop of \<open>iree_hal_cuda_tracing_context_collect\<close>, over the events of
  one command buffer. It leaves the loop at the first event whose
  \<open>cuEventSynchronize\<close> or \<open>cuEventQuery\<close> does not return \<open>CUDA_SUCCESS\<close>. On a
  cyclic chain the loop does not return: the value is \<open>None\<close>.
\<close>

partial_function (option) collect_events ::
  "cuda_symbols \<Rightarrow> context_t \<Rightarrow> event_ptr \<Rightarrow> sink \<Rightarrow> (failure + sink) option" where [code]:
  "collect_events symbols context ev snk =
     (case ev of
        None \<Rightarrow> Some (Inr snk)
      | Some i \<Rightarrow>
          if \<not> i < length (event_pool context) then Some (Inl InvalidPointer)
          else if \<not> cuEventSynchronize symbols (event (event_pool context ! i))
          then Some (Inr snk)
          else if \<not> cuEventQuery symbols (event (event_pool context ! i))
          then Some (Inr snk)
          else collect_events symbols context
                 (next_in_command_buffer (event_pool context ! i))
                 (snk @ [(id' context, to_uint32 i,
                          cuEventElapsedTime symbols (base_event context)
                            (event (event_pool context ! i)))]))"

text \<open>The outer loop, over the heads of the submitted command buffers.\<close>

partial_function (option) collect_submissions ::
  "cuda_symbols \<Rightarrow> context_t \<Rightarrow> event_ptr \<Rightarrow> sink \<Rightarrow> (failure + context_t \<times> sink) option" where [code]:
  "collect_submissions symbols context events snk =
     (case events of
        None \<Rightarrow> Some (Inr (context, snk))
      | Some h \<Rightarrow>
          Option.bind (collect_events symbols context events snk)
            (\<lambda>r. case r of
                   Inl e \<Rightarrow> Some (Inl e)
                 | Inr snk' \<Rightarrow>
                     if \<not> h < length (event_pool context) then Some (Inl InvalidPointer)
                     else
                       collect_submissions symbols
                         (context\<lparr>event_pool :=
                                    (event_pool context)
                                      [h := (event_pool context ! h)\<lparr>was_submitted := True\<rparr>],
                                  submitted_event_list :=
                                    (submitted_event_list context)
                                      \<lparr>head := next_submission (event_pool context ! h)\<rparr>\<rparr>)
                         (next_submission (event_pool context ! h)) snk'))"

definition iree_hal_cuda_tracing_context_collect ::
  "cuda_symbols \<Rightarrow> context_t \<Rightarrow> sink \<Rightarrow> (failure + context_t \<times> sink) option" where
  "iree_hal_cuda_tracing_context_collect symbols context snk =
     (if head (submitted_event_list context) = None then Some (Inr (context, snk))
      else collect_submissions symbols context (head (submitted_event_list context)) snk)"

subsection \<open>Submission\<close>

definition iree_hal_cuda_tracing_notify_submitted ::
  "context_t \<Rightarrow> event_list_t \<Rightarrow> failure + context_t" where
  "iree_hal_cuda_tracing_notify_submitted context event_list =
     (case head event_list of
        None \<Rightarrow> Inr context
      | Some h \<Rightarrow>
          (case head (submitted_event_list context) of
             None \<Rightarrow> Inr (context\<lparr>submitted_event_list := \<lparr>head = Some h, tail = Some h\<rparr>\<rparr>)
           | Some q \<Rightarrow>
               (case tail (submitted_event_list context) of
                  None \<Rightarrow> Inl NullDereference
                | Some t \<Rightarrow>
                    if \<not> t < length (event_pool context) then Inl InvalidPointer
                    else Inr (context\<lparr>event_pool :=
                                        (event_pool context)
                                          [t := (event_pool context ! t)\<lparr>next_submission := Some h\<rparr>],
                                      submitted_event_list := \<lparr>head = Some q, tail = Some h\<rparr>\<rparr>))))"

subsection \<open>Release of an event list\<close>

text \<open>The loop of \<open>iree_hal_cuda_tracing_free\<close> that reports a zero timestamp
  for every event of a list that was not submitted.\<close>

partial_function (option) free_notify ::
  "context_t \<Rightarrow> event_ptr \<Rightarrow> sink \<Rightarrow> (failure + sink) option" where [code]:
  "free_notify context ev snk =
     (case ev of
        None \<Rightarrow> Some (Inr snk)
      | Some i \<Rightarrow>
          if \<not> i < length (event_pool context) then Some (Inl InvalidPointer)
          else free_notify context (next_in_command_buffer (event_pool context ! i))
                 (snk @ [(id' context, to_uint32 i, 0)]))"

definition iree_hal_cuda_tracing_free ::
  "context_t \<Rightarrow> event_list_t \<Rightarrow> sink \<Rightarrow> (failure + context_t \<times> event_list_t \<times> sink) option" where
  "iree_hal_cuda_tracing_free context event_list snk =
     (case head event_list of
        None \<Rightarrow> Some (Inr (context, event_list, snk))
      | Some h \<Rightarrow>
          if \<not> h < length (event_pool context) then Some (Inl InvalidPointer)
          else
            Option.bind
              (if \<not> was_submitted (event_pool context ! h)
               then free_notify context (head event_list) snk
               else Some (Inr snk))
              (\<lambda>r. case r of
                     Inl e \<Rightarrow> Some (Inl e)
                   | Inr snk' \<Rightarrow>
                       (case event_freelist_head context of
                          None \<Rightarrow>
                            Some (Inr (context\<lparr>event_freelist_head := head event_list\<rparr>,
                                       event_list, snk'))
                        | Some f \<Rightarrow>
                            (case tail event_list of
                               None \<Rightarrow> Some (Inl NullDereference)
                             | Some t \<Rightarrow>
                                 if \<not> t < length (event_pool context)
                                 then Some (Inl InvalidPointer)
                                 else
                                   let pool1 = (event_pool context)
                                         [h := (event_pool context ! h)\<lparr>next_submission := None\<rparr>];
                                       pool2 = pool1[h := (pool1 ! h)\<lparr>was_submitted := False\<rparr>];
                                       pool3 = pool2
                                         [t := (pool2 ! t)\<lparr>next_in_command_buffer := Some f\<rparr>]
                                   in Some (Inr (context\<lparr>event_pool := pool3,
                                                         event_freelist_head := head event_list\<rparr>,
                                                 \<lparr>head = None, tail = None\<rparr>, snk'))))))"

subsection \<open>Insertion of a query\<close>

definition iree_hal_cuda_tracing_context_event_list_append_event ::
  "event_t list \<Rightarrow> event_list_t \<Rightarrow> nat \<Rightarrow> failure + event_t list \<times> event_list_t" where
  "iree_hal_cuda_tracing_context_event_list_append_event pool event_list i =
     (case head event_list of
        None \<Rightarrow> Inr (pool, \<lparr>head = Some i, tail = Some i\<rparr>)
      | Some h \<Rightarrow>
          (case tail event_list of
             None \<Rightarrow> Inl NullDereference
           | Some t \<Rightarrow>
               if \<not> t < length pool then Inl InvalidPointer
               else Inr (pool[t := (pool ! t)\<lparr>next_in_command_buffer := Some i\<rparr>],
                         \<lparr>head = Some h, tail = Some i\<rparr>)))"

text \<open>
  \<open>IREE_ASSERT\<close> is a macro of the base library, which stops the program in a
  build with assertions and expands to nothing otherwise; \<open>assertions\<close> says
  which build this is. The result carries the \<open>uint16_t\<close> query id.
\<close>

definition iree_hal_cuda_stream_tracing_context_insert_query ::
  "bool \<Rightarrow> context_t \<Rightarrow> event_list_t \<Rightarrow> failure + context_t \<times> event_list_t \<times> nat" where
  "iree_hal_cuda_stream_tracing_context_insert_query assertions context event_list =
     (case event_freelist_head context of
        None \<Rightarrow> Inl NullDereference
      | Some i \<Rightarrow>
          if \<not> i < length (event_pool context) then Inl InvalidPointer
          else if assertions \<and> next_in_command_buffer (event_pool context ! i) = None
          then Inl AssertionFailure
          else
            (case iree_hal_cuda_tracing_context_event_list_append_event
                    ((event_pool context)
                       [i := (event_pool context ! i)\<lparr>next_in_command_buffer := None\<rparr>])
                    event_list i of
               Inl e \<Rightarrow> Inl e
             | Inr (pool', event_list') \<Rightarrow>
                 Inr (context\<lparr>event_freelist_head :=
                                next_in_command_buffer (event_pool context ! i),
                              event_pool := pool'\<rparr>,
                      event_list', to_uint16 (to_uint32 i))))"

definition iree_hal_cuda_graph_tracing_context_insert_query ::
  "bool \<Rightarrow> cuda_symbols \<Rightarrow> context_t \<Rightarrow> event_list_t \<Rightarrow>
   failure + context_t \<times> event_list_t \<times> nat" where
  "iree_hal_cuda_graph_tracing_context_insert_query assertions symbols context event_list =
     (case event_freelist_head context of
        None \<Rightarrow> Inl NullDereference
      | Some i \<Rightarrow>
          if \<not> i < length (event_pool context) then Inl InvalidPointer
          else if assertions \<and> next_in_command_buffer (event_pool context ! i) = None
          then Inl AssertionFailure
          else if assertions \<and> \<not> cuGraphAddEventRecordNode symbols (event (event_pool context ! i))
          then Inl AssertionFailure
          else
            (case iree_hal_cuda_tracing_context_event_list_append_event
                    ((event_pool context)
                       [i := (event_pool context ! i)\<lparr>next_in_command_buffer := None\<rparr>])
                    event_list i of
               Inl e \<Rightarrow> Inl e
             | Inr (pool', event_list') \<Rightarrow>
                 Inr (context\<lparr>event_freelist_head :=
                                next_in_command_buffer (event_pool context ! i),
                              event_pool := pool'\<rparr>,
                      event_list', to_uint16 (to_uint32 i))))"

subsection \<open>Linked lists in the pool\<close>

text \<open>
  \<open>path link pool p xs\<close>: following the field \<open>link\<close> from the pointer \<open>p\<close>
  visits exactly the pool slots \<open>xs\<close>, in this order, and then reaches \<open>NULL\<close>.
\<close>

fun path :: "(event_t \<Rightarrow> event_ptr) \<Rightarrow> event_t list \<Rightarrow> event_ptr \<Rightarrow> nat list \<Rightarrow> bool" where
  "path link pool p [] = (p = None)"
| "path link pool p (x # xs) =
     (p = Some x \<and> x < length pool \<and> path link pool (link (pool ! x)) xs)"

text \<open>
  What Collect does with one event: \<open>ready\<close> says that both
  \<open>cuEventSynchronize\<close> and \<open>cuEventQuery\<close> return \<open>CUDA_SUCCESS\<close> for the
  event of pool slot \<open>i\<close>, \<open>resolved\<close> is the notification Collect then sends,
  and \<open>discarded\<close> the one Free sends for an event of a list that was not
  submitted. \<open>mark_submitted\<close> sets \<open>was_submitted\<close> on the given slots.
\<close>

definition ready :: "cuda_symbols \<Rightarrow> context_t \<Rightarrow> nat \<Rightarrow> bool" where
  "ready symbols context i =
     (cuEventSynchronize symbols (event (event_pool context ! i)) \<and>
      cuEventQuery symbols (event (event_pool context ! i)))"

definition resolved :: "cuda_symbols \<Rightarrow> context_t \<Rightarrow> nat \<Rightarrow> notification" where
  "resolved symbols context i =
     (id' context, to_uint32 i,
      cuEventElapsedTime symbols (base_event context) (event (event_pool context ! i)))"

definition discarded :: "context_t \<Rightarrow> nat \<Rightarrow> notification" where
  "discarded context i = (id' context, to_uint32 i, 0)"

fun mark_submitted :: "nat list \<Rightarrow> event_t list \<Rightarrow> event_t list" where
  "mark_submitted [] pool = pool"
| "mark_submitted (h # hs) pool =
     mark_submitted hs (pool[h := (pool ! h)\<lparr>was_submitted := True\<rparr>])"

subsection \<open>A client of the interface\<close>

text \<open>
  The caller owns the event lists and threads them through the calls. A client
  state holds the context, the client's event lists (numbered), the sink and
  the query ids handed out so far; a call that faults ends the run. A
  \<open>Collect_Context\<close> call comes with the state of the device at that moment.
\<close>

datatype call =
  Insert_Query nat
  | Notify_Submitted nat
  | Collect_Context cuda_symbols
  | Free_List nat

record client =
  ctx :: context_t
  event_lists :: "event_list_t list"
  notified :: sink
  issued :: "nat list"

definition client_call :: "bool \<Rightarrow> call \<Rightarrow> client \<Rightarrow> (failure + client) option" where
  "client_call assertions c s =
     (case c of
        Insert_Query k \<Rightarrow>
          (case iree_hal_cuda_stream_tracing_context_insert_query assertions (ctx s) (event_lists s ! k) of
             Inl e \<Rightarrow> Some (Inl e)
           | Inr (context', event_list', q) \<Rightarrow>
               Some (Inr (s\<lparr>ctx := context', event_lists := (event_lists s)[k := event_list'],
                            issued := issued s @ [q]\<rparr>)))
      | Notify_Submitted k \<Rightarrow>
          (case iree_hal_cuda_tracing_notify_submitted (ctx s) (event_lists s ! k) of
             Inl e \<Rightarrow> Some (Inl e)
           | Inr context' \<Rightarrow> Some (Inr (s\<lparr>ctx := context'\<rparr>)))
      | Collect_Context symbols \<Rightarrow>
          (case iree_hal_cuda_tracing_context_collect symbols (ctx s) (notified s) of
             None \<Rightarrow> None
           | Some (Inl e) \<Rightarrow> Some (Inl e)
           | Some (Inr (context', snk')) \<Rightarrow> Some (Inr (s\<lparr>ctx := context', notified := snk'\<rparr>)))
      | Free_List k \<Rightarrow>
          (case iree_hal_cuda_tracing_free (ctx s) (event_lists s ! k) (notified s) of
             None \<Rightarrow> None
           | Some (Inl e) \<Rightarrow> Some (Inl e)
           | Some (Inr (context', event_list', snk')) \<Rightarrow>
               Some (Inr (s\<lparr>ctx := context', event_lists := (event_lists s)[k := event_list'],
                            notified := snk'\<rparr>))))"

fun client_run :: "bool \<Rightarrow> call list \<Rightarrow> client \<Rightarrow> (failure + client) option" where
  "client_run assertions [] s = Some (Inr s)"
| "client_run assertions (c # cs) s =
     (case client_call assertions c s of
        None \<Rightarrow> None
      | Some (Inl e) \<Rightarrow> Some (Inl e)
      | Some (Inr s') \<Rightarrow> client_run assertions cs s')"

text \<open>Concrete inputs: memory as \<open>malloc\<close> may return it (every field holds
  rubbish), a device on which every call succeeds, and one on which
  \<open>cuEventSynchronize\<close> fails for the event of pool slot 1.\<close>

definition raw_event :: event_t where
  "raw_event = \<lparr>event = 0, next_in_command_buffer = Some 7, next_submission = Some 7,
                was_submitted = True\<rparr>"

definition raw_context :: "nat \<Rightarrow> context_t" where
  "raw_context n = \<lparr>id' = 0, base_event = 0, event_freelist_head = None,
                    submitted_event_list = \<lparr>head = Some 7, tail = Some 7\<rparr>,
                    query_capacity = 0, verbosity = 0, event_pool = replicate n raw_event\<rparr>"

definition ready_device :: cuda_symbols where
  "ready_device = \<lparr>cuEventCreate = (\<lambda>i. Some (100 + i)), cuEventRecord = (\<lambda>e. True),
                   cuEventSynchronize = (\<lambda>e. True), cuEventQuery = (\<lambda>e. True),
                   cuEventElapsedTime = (\<lambda>b e. int e), cuGraphAddEventRecordNode = (\<lambda>e. True)\<rparr>"

definition failing_device :: cuda_symbols where
  "failing_device = ready_device\<lparr>cuEventSynchronize := (\<lambda>e. e \<noteq> 101)\<rparr>"

text \<open>The context a successful allocation of \<open>n\<close> slots yields on \<open>ready_device\<close>,
  a client with two empty event lists on it, and a run of calls by this
  client.\<close>

definition fresh_context :: "nat \<Rightarrow> failure + context_t" where
  "fresh_context n =
     iree_hal_cuda_tracing_context_allocate ready_device 0 (Some (raw_context n)) 1"

definition fresh_client :: "nat \<Rightarrow> failure + client" where
  "fresh_client n =
     (case fresh_context n of
        Inl e \<Rightarrow> Inl e
      | Inr c \<Rightarrow> Inr \<lparr>ctx = c, event_lists = [\<lparr>head = None, tail = None\<rparr>, \<lparr>head = None, tail = None\<rparr>],
                      notified = [], issued = []\<rparr>)"

definition fresh_run :: "nat \<Rightarrow> bool \<Rightarrow> call list \<Rightarrow> (failure + client) option" where
  "fresh_run n assertions cs =
     (case fresh_client n of
        Inl e \<Rightarrow> Some (Inl e)
      | Inr s \<Rightarrow> client_run assertions cs s)"

text \<open>The same for a client that owns \<open>k\<close> event lists, all empty at the start.\<close>

definition fresh_run_lists ::
  "nat \<Rightarrow> nat \<Rightarrow> bool \<Rightarrow> call list \<Rightarrow> (failure + client) option" where
  "fresh_run_lists n k assertions cs =
     (case fresh_context n of
        Inl e \<Rightarrow> Some (Inl e)
      | Inr c \<Rightarrow>
          client_run assertions cs
            \<lparr>ctx = c, event_lists = replicate k \<lparr>head = None, tail = None\<rparr>,
             notified = [], issued = []\<rparr>)"

text \<open>The context after a client with six slots has put the queries 0, 1, 2
  in its first list and 3 in its second and has submitted both lists.\<close>

definition queued_context :: context_t where
  "queued_context =
     \<lparr>id' = 1, base_event = 106, event_freelist_head = Some 4,
      submitted_event_list = \<lparr>head = Some 0, tail = Some 3\<rparr>,
      query_capacity = 6, verbosity = 0,
      event_pool =
        [\<lparr>event = 100, next_in_command_buffer = Some 1, next_submission = Some 3,
          was_submitted = False\<rparr>,
         \<lparr>event = 101, next_in_command_buffer = Some 2, next_submission = None,
          was_submitted = False\<rparr>,
         \<lparr>event = 102, next_in_command_buffer = None, next_submission = None,
          was_submitted = False\<rparr>,
         \<lparr>event = 103, next_in_command_buffer = None, next_submission = None,
          was_submitted = False\<rparr>,
         \<lparr>event = 104, next_in_command_buffer = Some 5, next_submission = None,
          was_submitted = False\<rparr>,
         \<lparr>event = 105, next_in_command_buffer = None, next_submission = None,
          was_submitted = False\<rparr>]\<rparr>"

text \<open>The context a successful allocation of three slots yields on
  \<open>ready_device\<close>.\<close>

definition allocated_context :: context_t where
  "allocated_context =
     \<lparr>id' = 1, base_event = 103, event_freelist_head = Some 0,
      submitted_event_list = \<lparr>head = None, tail = None\<rparr>,
      query_capacity = 3, verbosity = 0,
      event_pool =
        [\<lparr>event = 100, next_in_command_buffer = Some 1, next_submission = None,
          was_submitted = False\<rparr>,
         \<lparr>event = 101, next_in_command_buffer = Some 2, next_submission = None,
          was_submitted = False\<rparr>,
         \<lparr>event = 102, next_in_command_buffer = None, next_submission = None,
          was_submitted = False\<rparr>]\<rparr>"

section \<open>Properties\<close>

subsection \<open>Lists in the pool\<close>

lemma nth_update:
  "(xs[i := x]) ! j = (if i = j \<and> i < length xs then x else xs ! j)"
  by (cases "i < length xs") (auto simp: nth_list_update list_update_beyond)

lemma path_functional:
  "path link pool p xs \<Longrightarrow> path link pool p ys \<Longrightarrow> xs = ys"
proof (induction xs arbitrary: p ys)
  case Nil
  then show ?case by (cases ys) auto
next
  case (Cons x xs)
  then show ?case by (cases ys) auto
qed

lemma path_in_pool: "path link pool p xs \<Longrightarrow> x \<in> set xs \<Longrightarrow> x < length pool"
  by (induction xs arbitrary: p) auto

lemma path_suffix:
  "path link pool p (xs @ y # ys) \<Longrightarrow> path link pool (Some y) (y # ys)"
  by (induction xs arbitrary: p) auto

lemma path_distinct: "path link pool p xs \<Longrightarrow> distinct xs"
proof (induction xs arbitrary: p)
  case Nil
  then show ?case by simp
next
  case (Cons x xs)
  have "x \<notin> set xs"
  proof
    assume "x \<in> set xs"
    then obtain ys zs where split: "xs = ys @ x # zs"
      by (auto simp: in_set_conv_decomp)
    with Cons.prems have "path link pool (Some x) (x # zs)"
      using path_suffix [of link pool "link (pool ! x)" ys x zs] by simp
    moreover from Cons.prems have "path link pool (Some x) (x # xs)" by simp
    ultimately have "x # zs = x # xs" by (rule path_functional)
    with split show False by simp
  qed
  with Cons show ?case by auto
qed

lemma path_cong:
  "path link pool p xs \<Longrightarrow> length pool' = length pool \<Longrightarrow>
   \<forall>x \<in> set xs. link' (pool' ! x) = link (pool ! x) \<Longrightarrow> path link' pool' p xs"
  by (induction xs arbitrary: p) auto

lemma path_snoc:
  "path link pool p xs \<Longrightarrow> xs \<noteq> [] \<Longrightarrow> length pool' = length pool \<Longrightarrow>
   \<forall>x \<in> set (butlast xs). link (pool' ! x) = link (pool ! x) \<Longrightarrow>
   link (pool' ! last xs) = Some i \<Longrightarrow> i < length pool \<Longrightarrow> link (pool' ! i) = None \<Longrightarrow>
   path link pool' p (xs @ [i])"
proof (induction xs arbitrary: p)
  case Nil
  then show ?case by simp
next
  case (Cons x xs)
  show ?case
  proof (cases "xs = []")
    case True
    with Cons.prems show ?thesis by simp
  next
    case False
    with Cons.prems have "path link pool' (link (pool ! x)) (xs @ [i])"
      by (intro Cons.IH) auto
    with False Cons.prems show ?thesis by simp
  qed
qed

lemma collect_events_path:
  "path next_in_command_buffer (event_pool context) p xs \<Longrightarrow>
   collect_events symbols context p snk =
     Some (Inr (snk @ map (resolved symbols context) (takeWhile (ready symbols context) xs)))"
proof (induction xs arbitrary: p snk)
  case Nil
  then show ?case by (subst collect_events.simps) simp
next
  case (Cons x xs)
  then have p: "p = Some x" and x: "x < length (event_pool context)"
    and rest: "path next_in_command_buffer (event_pool context)
                 (next_in_command_buffer (event_pool context ! x)) xs"
    by simp_all
  have r: "ready symbols context x =
      (cuEventSynchronize symbols (event (event_pool context ! x)) \<and>
       cuEventQuery symbols (event (event_pool context ! x)))"
    by (simp add: ready_def)
  have n: "resolved symbols context x =
      (id' context, to_uint32 x,
       cuEventElapsedTime symbols (base_event context) (event (event_pool context ! x)))"
    by (simp add: resolved_def)
  show ?case
    by (subst collect_events.simps) (simp add: p x Cons.IH [OF rest] r n)
qed

lemma free_notify_path:
  "path next_in_command_buffer (event_pool context) p xs \<Longrightarrow>
   free_notify context p snk = Some (Inr (snk @ map (discarded context) xs))"
proof (induction xs arbitrary: p snk)
  case Nil
  then show ?case by (subst free_notify.simps) simp
next
  case (Cons x xs)
  then have p: "p = Some x" and x: "x < length (event_pool context)"
    and rest: "path next_in_command_buffer (event_pool context)
                 (next_in_command_buffer (event_pool context ! x)) xs"
    by simp_all
  have n: "discarded context x = (id' context, to_uint32 x, 0)"
    by (simp add: discarded_def)
  show ?case
    by (subst free_notify.simps) (simp add: p x Cons.IH [OF rest] n)
qed

lemma mark_submitted_length [simp]: "length (mark_submitted hs pool) = length pool"
  by (induction hs arbitrary: pool) auto

lemma mark_submitted_fields:
  "i < length pool \<Longrightarrow>
   event (mark_submitted hs pool ! i) = event (pool ! i) \<and>
   next_in_command_buffer (mark_submitted hs pool ! i) = next_in_command_buffer (pool ! i) \<and>
   next_submission (mark_submitted hs pool ! i) = next_submission (pool ! i) \<and>
   was_submitted (mark_submitted hs pool ! i) = (i \<in> set hs \<or> was_submitted (pool ! i))"
  by (induction hs arbitrary: pool) (auto simp: nth_update)

lemma collect_submissions_path:
  "path next_submission (event_pool c) p hs \<Longrightarrow>
   \<forall>h \<in> set hs. path next_in_command_buffer (event_pool c) (Some h) (chain h) \<Longrightarrow>
   collect_submissions symbols c p snk =
     Some (Inr (c\<lparr>event_pool := mark_submitted hs (event_pool c),
                        submitted_event_list :=
                          (submitted_event_list c)
                            \<lparr>head := (if hs = [] then head (submitted_event_list c) else None)\<rparr>\<rparr>,
                snk @ concat (map (\<lambda>h. map (resolved symbols c)
                                         (takeWhile (ready symbols c) (chain h))) hs)))"
proof (induction hs arbitrary: c p snk)
  case Nil
  then show ?case by (subst collect_submissions.simps) simp
next
  case (Cons h hs)
  let ?pool = "event_pool c"
  let ?pool1 = "?pool[h := (?pool ! h)\<lparr>was_submitted := True\<rparr>]"
  let ?next = "next_submission (?pool ! h)"
  let ?context1 = "c\<lparr>event_pool := ?pool1,
      submitted_event_list := (submitted_event_list c)\<lparr>head := ?next\<rparr>\<rparr>"
  from Cons.prems have p: "p = Some h" and h: "h < length ?pool"
    and rest: "path next_submission ?pool ?next hs"
    and chains: "\<forall>k \<in> set (h # hs). path next_in_command_buffer ?pool (Some k) (chain k)"
    by simp_all
  have inner: "collect_events symbols c (Some h) snk =
      Some (Inr (snk @ map (resolved symbols c) (takeWhile (ready symbols c) (chain h))))"
    using chains by (intro collect_events_path) simp
  have rest1: "path next_submission (event_pool ?context1) ?next hs"
    using rest by (rule path_cong) (auto simp: nth_update)
  have chains1: "\<forall>k \<in> set hs. path next_in_command_buffer (event_pool ?context1) (Some k) (chain k)"
  proof
    fix k assume "k \<in> set hs"
    with chains have "path next_in_command_buffer ?pool (Some k) (chain k)" by simp
    then show "path next_in_command_buffer (event_pool ?context1) (Some k) (chain k)"
      by (rule path_cong) (auto simp: nth_update)
  qed
  have same_ready: "ready symbols ?context1 = ready symbols c"
    by (rule ext) (auto simp: ready_def nth_update)
  have same_resolved: "resolved symbols ?context1 = resolved symbols c"
    by (rule ext) (auto simp: resolved_def nth_update)
  have step: "collect_submissions symbols c p snk =
      collect_submissions symbols ?context1 ?next
        (snk @ map (resolved symbols c) (takeWhile (ready symbols c) (chain h)))"
    by (subst collect_submissions.simps) (simp add: p h inner)
  show ?case
    unfolding step Cons.IH [OF rest1 chains1] same_ready same_resolved
    using rest by (cases hs) simp_all
qed


subsection \<open>Free and the allocation loop\<close>

lemma free_empty_freelist:
  assumes "path next_in_command_buffer (event_pool c) (head event_list) xs"
    and "head event_list = Some h"
    and "event_freelist_head c = None"
  shows "iree_hal_cuda_tracing_free c event_list snk =
     Some (Inr (c\<lparr>event_freelist_head := Some h\<rparr>, event_list,
                snk @ (if was_submitted (event_pool c ! h) then [] else map (discarded c) xs)))"
proof -
  from assms have h: "h < length (event_pool c)" by (cases xs) auto
  show ?thesis
    using assms(2,3) h free_notify_path [OF assms(1), of snk]
    by (simp add: iree_hal_cuda_tracing_free_def)
qed

lemma free_nonempty_freelist:
  assumes "path next_in_command_buffer (event_pool c) (head event_list) xs"
    and "head event_list = Some h"
    and "event_freelist_head c = Some f"
    and "tail event_list = Some t" and "t < length (event_pool c)"
  shows "iree_hal_cuda_tracing_free c event_list snk =
     Some (Inr (c\<lparr>event_pool :=
                      (event_pool c)
                        [h := (event_pool c ! h)\<lparr>next_submission := None, was_submitted := False\<rparr>,
                         t := ((event_pool c)
                                [h := (event_pool c ! h)\<lparr>next_submission := None,
                                                         was_submitted := False\<rparr>] ! t)
                              \<lparr>next_in_command_buffer := Some f\<rparr>],
                    event_freelist_head := Some h\<rparr>,
                \<lparr>head = None, tail = None\<rparr>,
                snk @ (if was_submitted (event_pool c ! h) then [] else map (discarded c) xs)))"
proof -
  from assms have h: "h < length (event_pool c)" by (cases xs) auto
  show ?thesis
    using assms(2-5) h free_notify_path [OF assms(1), of snk]
    by (simp add: iree_hal_cuda_tracing_free_def Let_def)
qed


lemma allocate_event_pool_stop:
  "\<not> i < n \<Longrightarrow> allocate_event_pool symbols n i pool = Inr pool"
  by (subst allocate_event_pool.simps) simp

lemma allocate_event_pool_fail:
  "i < n \<Longrightarrow> cuEventCreate symbols i = None \<Longrightarrow>
   allocate_event_pool symbols n i pool = Inl CudaError"
  by (subst allocate_event_pool.simps) simp

lemma allocate_event_pool_length:
  "allocate_event_pool symbols n i pool = Inr pool' \<Longrightarrow> length pool' = length pool"
proof (induction symbols n i pool rule: allocate_event_pool.induct)
  case (1 symbols capacity i pool)
  show ?case
  proof (cases "i < capacity")
    case False
    with "1.prems" show ?thesis by (simp add: allocate_event_pool_stop)
  next
    case True
    then obtain ev where ev: "cuEventCreate symbols i = Some ev"
      using "1.prems" by (cases "cuEventCreate symbols i") (auto simp: allocate_event_pool_fail)
    from "1.prems" have "allocate_event_pool symbols capacity (i + 1)
        (let pool1 = pool[i := (pool ! i)\<lparr>event := ev\<rparr>];
             pool2 = (if 0 < i
                      then pool1[i - 1 := (pool1 ! (i - 1))\<lparr>next_in_command_buffer := Some i\<rparr>]
                      else pool1);
             pool3 = pool2[i := (pool2 ! i)\<lparr>next_submission := None\<rparr>];
             pool4 = pool3[i := (pool3 ! i)\<lparr>was_submitted := False\<rparr>]
         in if i + 1 = capacity
            then pool4[i := (pool4 ! i)\<lparr>next_in_command_buffer := None\<rparr>]
            else pool4) = Inr pool'"
      by (subst (asm) allocate_event_pool.simps) (simp add: True ev Let_def)
    then have "length pool' = length
        (let pool1 = pool[i := (pool ! i)\<lparr>event := ev\<rparr>];
             pool2 = (if 0 < i
                      then pool1[i - 1 := (pool1 ! (i - 1))\<lparr>next_in_command_buffer := Some i\<rparr>]
                      else pool1);
             pool3 = pool2[i := (pool2 ! i)\<lparr>next_submission := None\<rparr>];
             pool4 = pool3[i := (pool3 ! i)\<lparr>was_submitted := False\<rparr>]
         in if i + 1 = capacity
            then pool4[i := (pool4 ! i)\<lparr>next_in_command_buffer := None\<rparr>]
            else pool4)"
      using "1.IH" [OF True ev refl refl refl refl refl] by (simp add: Let_def)
    then show ?thesis by (simp add: Let_def)
  qed
qed

lemma allocate_event_pool_links:
  "allocate_event_pool symbols n i pool = Inr pool' \<Longrightarrow> length pool = n \<Longrightarrow> j < n \<Longrightarrow>
   (i \<le> j \<longrightarrow>
      next_submission (pool' ! j) = None \<and> \<not> was_submitted (pool' ! j) \<and>
      next_in_command_buffer (pool' ! j) = (if Suc j = n then None else Some (Suc j))) \<and>
   (j < i \<longrightarrow>
      next_submission (pool' ! j) = next_submission (pool ! j) \<and>
      was_submitted (pool' ! j) = was_submitted (pool ! j) \<and>
      next_in_command_buffer (pool' ! j) =
        (if Suc j = i \<and> i < n then Some i else next_in_command_buffer (pool ! j)))"
proof (induction symbols n i pool rule: allocate_event_pool.induct)
  case (1 symbols capacity i pool)
  show ?case
  proof (cases "i < capacity")
    case False
    with "1.prems" show ?thesis by (simp add: allocate_event_pool_stop)
  next
    case True
    then obtain ev where ev: "cuEventCreate symbols i = Some ev"
      using "1.prems" by (cases "cuEventCreate symbols i") (auto simp: allocate_event_pool_fail)
    define pool1 where "pool1 = pool[i := (pool ! i)\<lparr>event := ev\<rparr>]"
    define pool2 where "pool2 = (if 0 < i
        then pool1[i - 1 := (pool1 ! (i - 1))\<lparr>next_in_command_buffer := Some i\<rparr>] else pool1)"
    define pool3 where "pool3 = pool2[i := (pool2 ! i)\<lparr>next_submission := None\<rparr>]"
    define pool4 where "pool4 = pool3[i := (pool3 ! i)\<lparr>was_submitted := False\<rparr>]"
    define pool5 where "pool5 = (if i + 1 = capacity
        then pool4[i := (pool4 ! i)\<lparr>next_in_command_buffer := None\<rparr>] else pool4)"
    have "allocate_event_pool symbols capacity i pool =
        allocate_event_pool symbols capacity (i + 1) pool5"
      by (subst allocate_event_pool.simps)
        (simp only: True ev if_True option.case Let_def
          pool1_def pool2_def pool3_def pool4_def pool5_def)
    with "1.prems"(1) have run: "allocate_event_pool symbols capacity (i + 1) pool5 = Inr pool'"
      by simp
    have len: "length pool5 = capacity"
      using "1.prems"(2) by (simp add: pool1_def pool2_def pool3_def pool4_def pool5_def)
    note IH = "1.IH" [OF True ev pool1_def pool2_def pool3_def pool4_def pool5_def run len "1.prems"(3)]
    have at_i: "next_submission (pool5 ! i) = None" "\<not> was_submitted (pool5 ! i)"
      "i + 1 = capacity \<Longrightarrow> next_in_command_buffer (pool5 ! i) = None"
      using True "1.prems"(2)
      by (simp_all add: pool1_def pool2_def pool3_def pool4_def pool5_def nth_update)
    have below: "\<And>k. k < i \<Longrightarrow>
        next_submission (pool5 ! k) = next_submission (pool ! k) \<and>
        was_submitted (pool5 ! k) = was_submitted (pool ! k) \<and>
        next_in_command_buffer (pool5 ! k) =
          (if Suc k = i then Some i else next_in_command_buffer (pool ! k))"
      using True "1.prems"(2)
      by (auto simp: pool1_def pool2_def pool3_def pool4_def pool5_def nth_update)
    show ?thesis
    proof (cases "j < i")
      case True
      with IH below [of j] \<open>i < capacity\<close> show ?thesis by auto
    next
      case False
      show ?thesis
      proof (cases "j = i")
        case True
        with IH at_i \<open>i < capacity\<close> show ?thesis by auto
      next
        case False
        with \<open>\<not> j < i\<close> IH show ?thesis by auto
      qed
    qed
  qed
qed


lemma path_upto:
  "length pool = n \<Longrightarrow>
   \<forall>j<n. link (pool ! j) = (if Suc j = n then None else Some (Suc j)) \<Longrightarrow>
   i < n \<Longrightarrow> path link pool (Some i) [i..<n]"
proof (induction "n - i" arbitrary: i)
  case 0
  then show ?case by simp
next
  case (Suc k)
  show ?case
  proof (cases "Suc i = n")
    case True
    with Suc.prems show ?thesis by (simp add: upt_conv_Cons)
  next
    case False
    with Suc.prems have less: "Suc i < n" by simp
    with Suc.hyps(2) have "k = n - Suc i" by simp
    from Suc.hyps(1) [OF this Suc.prems(1,2) less] Suc.prems False
    show ?thesis by (simp add: upt_conv_Cons)
  qed
qed

subsection \<open>Insertion of queries\<close>

lemma path_last_in_pool:
  "path link pool p xs \<Longrightarrow> xs \<noteq> [] \<Longrightarrow> last xs < length pool"
  using path_in_pool [of link pool p xs "last xs"] by simp

lemma path_head: "path link pool p xs \<Longrightarrow> xs \<noteq> [] \<Longrightarrow> p = Some (hd xs)"
  by (cases xs) auto

lemma path_empty: "path link pool None xs \<Longrightarrow> xs = []"
  by (cases xs) auto

lemma insert_query_appends:
  assumes xs: "path next_in_command_buffer (event_pool c) (head el) xs"
    and tl: "xs \<noteq> [] \<Longrightarrow> tail el = Some (last xs)"
    and fl: "event_freelist_head c = Some i" "i < length (event_pool c)" "i \<notin> set xs"
    and ok: "assertions \<Longrightarrow> next_in_command_buffer (event_pool c ! i) \<noteq> None"
  shows "\<exists>c' el'.
     iree_hal_cuda_stream_tracing_context_insert_query assertions c el =
       Inr (c', el', to_uint16 (to_uint32 i)) \<and>
     path next_in_command_buffer (event_pool c') (head el') (xs @ [i]) \<and>
     tail el' = Some i \<and>
     event_freelist_head c' = next_in_command_buffer (event_pool c ! i) \<and>
     length (event_pool c') = length (event_pool c) \<and>
     (\<forall>j. j \<notin> set xs \<longrightarrow> j \<noteq> i \<longrightarrow> event_pool c' ! j = event_pool c ! j) \<and>
     (\<forall>j. event (event_pool c' ! j) = event (event_pool c ! j) \<and>
          next_submission (event_pool c' ! j) = next_submission (event_pool c ! j) \<and>
          was_submitted (event_pool c' ! j) = was_submitted (event_pool c ! j)) \<and>
     c'\<lparr>event_pool := event_pool c, event_freelist_head := event_freelist_head c\<rparr> = c"
proof (cases "xs = []")
  case True
  with xs have "head el = None" by simp
  with fl ok True show ?thesis
    by (auto simp: iree_hal_cuda_stream_tracing_context_insert_query_def
        iree_hal_cuda_tracing_context_event_list_append_event_def nth_update)
next
  case False
  let ?pool = "event_pool c"
  let ?t = "last xs"
  let ?pool1 = "?pool[i := (?pool ! i)\<lparr>next_in_command_buffer := None\<rparr>]"
  let ?pool2 = "?pool1[?t := (?pool1 ! ?t)\<lparr>next_in_command_buffer := Some i\<rparr>]"
  from xs False have hd: "head el = Some (hd xs)" by (rule path_head)
  from tl False have t: "tail el = Some ?t" by simp
  from xs False have tin: "?t < length ?pool" by (rule path_last_in_pool)
  from fl(3) False have ti: "?t \<noteq> i" by (metis last_in_set)
  from xs have dist: "distinct xs" by (rule path_distinct)
  have run: "iree_hal_cuda_stream_tracing_context_insert_query assertions c el =
      Inr (c\<lparr>event_freelist_head := next_in_command_buffer (?pool ! i), event_pool := ?pool2\<rparr>,
           \<lparr>head = Some (hd xs), tail = Some i\<rparr>, to_uint16 (to_uint32 i))"
    using fl ok hd t tin
    by (auto simp: iree_hal_cuda_stream_tracing_context_insert_query_def
        iree_hal_cuda_tracing_context_event_list_append_event_def)
  have butlast: "\<forall>x \<in> set (butlast xs).
      next_in_command_buffer (?pool2 ! x) = next_in_command_buffer (?pool ! x)"
  proof
    fix x assume x: "x \<in> set (butlast xs)"
    with dist False have "x \<noteq> ?t"
      by (metis append_butlast_last_id distinct_butlast not_distinct_conv_prefix
          distinct_append disjoint_iff list.set_intros(1))
    moreover from x fl(3) have "x \<noteq> i" by (metis in_set_butlastD)
    ultimately show "next_in_command_buffer (?pool2 ! x) = next_in_command_buffer (?pool ! x)"
      by (simp add: nth_update)
  qed
  have "path next_in_command_buffer ?pool2 (head el) (xs @ [i])"
    using xs False _ butlast
  proof (rule path_snoc)
    show "length ?pool2 = length ?pool" by simp
    show "next_in_command_buffer (?pool2 ! ?t) = Some i" using tin by (simp add: nth_update)
    show "i < length ?pool" by (rule fl(2))
    show "next_in_command_buffer (?pool2 ! i) = None" using ti fl(2) by (simp add: nth_update)
  qed
  with run hd last_in_set [OF False] show ?thesis
    by (auto simp: nth_update)
qed

lemma insert_run:
  assumes "path next_in_command_buffer (event_pool c) (event_freelist_head c) fs"
    and "path next_in_command_buffer (event_pool c) (head el) xs"
    and "xs \<noteq> [] \<Longrightarrow> tail el = Some (last xs)"
    and "set xs \<inter> set fs = {}"
    and "n \<le> length fs" and "assertions \<Longrightarrow> n < length fs"
    and "k < length ls"
  shows "\<exists>c' el'.
     client_run assertions (replicate n (Insert_Query k) @ rest)
       \<lparr>ctx = c, event_lists = ls[k := el], notified = snk, issued = qs\<rparr> =
     client_run assertions rest
       \<lparr>ctx = c', event_lists = ls[k := el'], notified = snk,
        issued = qs @ map (\<lambda>i. to_uint16 (to_uint32 i)) (take n fs)\<rparr> \<and>
     path next_in_command_buffer (event_pool c') (head el') (xs @ take n fs) \<and>
     (xs @ take n fs \<noteq> [] \<longrightarrow> tail el' = Some (last (xs @ take n fs))) \<and>
     path next_in_command_buffer (event_pool c') (event_freelist_head c') (drop n fs) \<and>
     length (event_pool c') = length (event_pool c) \<and>
     (\<forall>j. j \<notin> set xs \<longrightarrow> j \<notin> set (take n fs) \<longrightarrow> event_pool c' ! j = event_pool c ! j) \<and>
     (\<forall>j. event (event_pool c' ! j) = event (event_pool c ! j) \<and>
          next_submission (event_pool c' ! j) = next_submission (event_pool c ! j) \<and>
          was_submitted (event_pool c' ! j) = was_submitted (event_pool c ! j)) \<and>
     c'\<lparr>event_pool := event_pool c, event_freelist_head := event_freelist_head c\<rparr> = c"
  using assms
proof (induction n arbitrary: c el xs fs qs)
  case 0
  show ?case
    by (rule exI [of _ c], rule exI [of _ el]) (use 0 in simp)
next
  case (Suc m)
  from Suc.prems(5) obtain i fs' where fs: "fs = i # fs'" by (cases fs) auto
  with Suc.prems(1) have head: "event_freelist_head c = Some i"
    and i: "i < length (event_pool c)"
    and rest_path: "path next_in_command_buffer (event_pool c)
                      (next_in_command_buffer (event_pool c ! i)) fs'"
    by simp_all
  from Suc.prems(1) have "distinct fs" by (rule path_distinct)
  with fs have i_fresh: "i \<notin> set fs'" and dist': "distinct fs'" by simp_all
  from Suc.prems(4) fs have i_xs: "i \<notin> set xs" and disj': "set xs \<inter> set fs' = {}" by auto
  have ok: "assertions \<Longrightarrow> next_in_command_buffer (event_pool c ! i) \<noteq> None"
  proof -
    assume assertions
    with Suc.prems(6) fs have "fs' \<noteq> []" by auto
    with rest_path show ?thesis by (cases fs') auto
  qed
  from insert_query_appends [OF Suc.prems(2,3) head i i_xs ok]
  obtain c1 el1 where
    run1: "iree_hal_cuda_stream_tracing_context_insert_query assertions c el =
             Inr (c1, el1, to_uint16 (to_uint32 i))"
    and path1: "path next_in_command_buffer (event_pool c1) (head el1) (xs @ [i])"
    and tail1: "tail el1 = Some i"
    and free1: "event_freelist_head c1 = next_in_command_buffer (event_pool c ! i)"
    and len1: "length (event_pool c1) = length (event_pool c)"
    and frame1: "\<forall>j. j \<notin> set xs \<longrightarrow> j \<noteq> i \<longrightarrow> event_pool c1 ! j = event_pool c ! j"
    and fields1: "\<forall>j. event (event_pool c1 ! j) = event (event_pool c ! j) \<and>
          next_submission (event_pool c1 ! j) = next_submission (event_pool c ! j) \<and>
          was_submitted (event_pool c1 ! j) = was_submitted (event_pool c ! j)"
    and other1: "c1\<lparr>event_pool := event_pool c, event_freelist_head := event_freelist_head c\<rparr> = c"
    by blast
  have fs1: "path next_in_command_buffer (event_pool c1) (event_freelist_head c1) fs'"
    unfolding free1 using rest_path len1
  proof (rule path_cong)
    show "\<forall>x\<in>set fs'. next_in_command_buffer (event_pool c1 ! x) =
        next_in_command_buffer (event_pool c ! x)"
      using frame1 i_fresh disj' by auto
  qed
  have tl1: "xs @ [i] \<noteq> [] \<Longrightarrow> tail el1 = Some (last (xs @ [i]))"
    using tail1 by simp
  have disj1: "set (xs @ [i]) \<inter> set fs' = {}"
    using disj' i_fresh by auto
  have m: "m \<le> length fs'" "assertions \<Longrightarrow> m < length fs'"
    using Suc.prems(5,6) fs by auto
  from Suc.IH [OF fs1 path1 tl1 disj1 m Suc.prems(7),
      of "qs @ [to_uint16 (to_uint32 i)]"]
  obtain c' el' where
    run': "client_run assertions (replicate m (Insert_Query k) @ rest)
       \<lparr>ctx = c1, event_lists = ls[k := el1], notified = snk,
        issued = (qs @ [to_uint16 (to_uint32 i)])\<rparr> =
     client_run assertions rest
       \<lparr>ctx = c', event_lists = ls[k := el'], notified = snk,
        issued = (qs @ [to_uint16 (to_uint32 i)]) @
                 map (\<lambda>i. to_uint16 (to_uint32 i)) (take m fs')\<rparr>"
    and path': "path next_in_command_buffer (event_pool c') (head el') ((xs @ [i]) @ take m fs')"
    and tail': "(xs @ [i]) @ take m fs' \<noteq> [] \<longrightarrow>
                  tail el' = Some (last ((xs @ [i]) @ take m fs'))"
    and free': "path next_in_command_buffer (event_pool c') (event_freelist_head c') (drop m fs')"
    and len': "length (event_pool c') = length (event_pool c1)"
    and frame': "\<forall>j. j \<notin> set (xs @ [i]) \<longrightarrow> j \<notin> set (take m fs') \<longrightarrow>
                  event_pool c' ! j = event_pool c1 ! j"
    and fields': "\<forall>j. event (event_pool c' ! j) = event (event_pool c1 ! j) \<and>
          next_submission (event_pool c' ! j) = next_submission (event_pool c1 ! j) \<and>
          was_submitted (event_pool c' ! j) = was_submitted (event_pool c1 ! j)"
    and other': "c'\<lparr>event_pool := event_pool c1, event_freelist_head := event_freelist_head c1\<rparr> = c1"
    by blast
  have step: "client_run assertions (replicate (Suc m) (Insert_Query k) @ rest)
       \<lparr>ctx = c, event_lists = ls[k := el], notified = snk, issued = qs\<rparr> =
     client_run assertions (replicate m (Insert_Query k) @ rest)
       \<lparr>ctx = c1, event_lists = ls[k := el1], notified = snk,
        issued = (qs @ [to_uint16 (to_uint32 i)])\<rparr>"
    using run1 Suc.prems(7) by (simp add: client_call_def)
  have other: "c'\<lparr>event_pool := event_pool c, event_freelist_head := event_freelist_head c\<rparr> = c"
  proof -
    have "c'\<lparr>event_pool := event_pool c, event_freelist_head := event_freelist_head c\<rparr> =
        (c'\<lparr>event_pool := event_pool c1, event_freelist_head := event_freelist_head c1\<rparr>)
          \<lparr>event_pool := event_pool c, event_freelist_head := event_freelist_head c\<rparr>"
      by simp
    also have "\<dots> = c" unfolding other' by (rule other1)
    finally show ?thesis .
  qed
  show ?case
  proof (intro exI [of _ c'] exI [of _ el'] conjI)
    show "client_run assertions (replicate (Suc m) (Insert_Query k) @ rest)
       \<lparr>ctx = c, event_lists = ls[k := el], notified = snk, issued = qs\<rparr> =
     client_run assertions rest
       \<lparr>ctx = c', event_lists = ls[k := el'], notified = snk,
        issued = qs @ map (\<lambda>i. to_uint16 (to_uint32 i)) (take (Suc m) fs)\<rparr>"
      unfolding step run' by (simp add: fs)
    show "path next_in_command_buffer (event_pool c') (head el') (xs @ take (Suc m) fs)"
      using path' by (simp add: fs)
    show "xs @ take (Suc m) fs \<noteq> [] \<longrightarrow> tail el' = Some (last (xs @ take (Suc m) fs))"
      using tail' by (simp add: fs)
    show "path next_in_command_buffer (event_pool c') (event_freelist_head c') (drop (Suc m) fs)"
      using free' by (simp add: fs)
    show "length (event_pool c') = length (event_pool c)"
      using len' len1 by simp
    show "\<forall>j. j \<notin> set xs \<longrightarrow> j \<notin> set (take (Suc m) fs) \<longrightarrow> event_pool c' ! j = event_pool c ! j"
      using frame' frame1 by (simp add: fs)
    show "\<forall>j. event (event_pool c' ! j) = event (event_pool c ! j) \<and>
          next_submission (event_pool c' ! j) = next_submission (event_pool c ! j) \<and>
          was_submitted (event_pool c' ! j) = was_submitted (event_pool c ! j)"
      using fields' fields1 by simp
    show "c'\<lparr>event_pool := event_pool c, event_freelist_head := event_freelist_head c\<rparr> = c"
      by (rule other)
  qed
qed

lemma insert_run_last_asserts:
  assumes "path next_in_command_buffer (event_pool c) (event_freelist_head c) fs"
    and "path next_in_command_buffer (event_pool c) (head el) xs"
    and "xs \<noteq> [] \<Longrightarrow> tail el = Some (last xs)"
    and "set xs \<inter> set fs = {}"
    and "fs \<noteq> []" and "k < length ls"
  shows "client_run True (replicate (length fs) (Insert_Query k))
       \<lparr>ctx = c, event_lists = ls[k := el], notified = snk, issued = qs\<rparr> =
     Some (Inl AssertionFailure)"
proof -
  let ?n = "length fs - 1"
  from assms(5) have n: "?n \<le> length fs" "?n < length fs" by (cases fs; simp)+
  from insert_run [where assertions = True and rest = "[Insert_Query k]" and snk = snk and qs = qs,
      OF assms(1-4) n assms(6)]
  obtain c' el' where
    run: "client_run True (replicate ?n (Insert_Query k) @ [Insert_Query k])
       \<lparr>ctx = c, event_lists = ls[k := el], notified = snk, issued = qs\<rparr> =
     client_run True [Insert_Query k]
       \<lparr>ctx = c', event_lists = ls[k := el'], notified = snk,
        issued = qs @ map (\<lambda>i. to_uint16 (to_uint32 i)) (take ?n fs)\<rparr>"
    and free: "path next_in_command_buffer (event_pool c') (event_freelist_head c') (drop ?n fs)"
    by blast
  from assms(5) have "drop ?n fs = [last fs]"
    by (metis append_butlast_last_id length_butlast append_eq_conv_conj)
  with free have last: "event_freelist_head c' = Some (last fs)"
    "last fs < length (event_pool c')"
    "next_in_command_buffer (event_pool c' ! last fs) = None"
    by simp_all
  have "replicate ?n (Insert_Query k) @ [Insert_Query k] = replicate (length fs) (Insert_Query k)"
    using assms(5) by (cases fs) (simp_all add: replicate_append_same)
  with run last show ?thesis
    by (simp add: client_call_def iree_hal_cuda_stream_tracing_context_insert_query_def)
qed

subsection \<open>Collection and submission\<close>

lemma collect_walk:
  assumes "path next_submission (event_pool c) (head (submitted_event_list c)) hs"
    and "\<forall>h \<in> set hs. path next_in_command_buffer (event_pool c) (Some h) (chain h)"
  shows "\<exists>c'. iree_hal_cuda_tracing_context_collect symbols c snk =
           Some (Inr (c', snk @ concat (map (\<lambda>h. map (resolved symbols c)
                                                  (takeWhile (ready symbols c) (chain h))) hs))) \<and>
         head (submitted_event_list c') = None \<and>
         event_freelist_head c' = event_freelist_head c"
proof (cases "head (submitted_event_list c)")
  case None
  with assms(1) have "hs = []" by (cases hs) auto
  with None show ?thesis
    by (simp add: iree_hal_cuda_tracing_context_collect_def)
next
  case (Some h)
  with assms(1) have "hs \<noteq> []" by (cases hs) auto
  have "iree_hal_cuda_tracing_context_collect symbols c snk =
      collect_submissions symbols c (head (submitted_event_list c)) snk"
    using Some by (simp add: iree_hal_cuda_tracing_context_collect_def)
  with \<open>hs \<noteq> []\<close> show ?thesis
    by (simp add: collect_submissions_path [OF assms])
qed

lemma notify_submitted_enqueues:
  assumes q: "path next_submission (event_pool c) (head (submitted_event_list c)) hs"
    and tl: "hs \<noteq> [] \<Longrightarrow> tail (submitted_event_list c) = Some (last hs)"
    and h: "head el = Some h" "h < length (event_pool c)" "h \<notin> set hs"
      "next_submission (event_pool c ! h) = None"
  shows "\<exists>c'. iree_hal_cuda_tracing_notify_submitted c el = Inr c' \<and>
     path next_submission (event_pool c') (head (submitted_event_list c')) (hs @ [h]) \<and>
     tail (submitted_event_list c') = Some h \<and>
     length (event_pool c') = length (event_pool c) \<and>
     (\<forall>j. event (event_pool c' ! j) = event (event_pool c ! j) \<and>
          next_in_command_buffer (event_pool c' ! j) = next_in_command_buffer (event_pool c ! j) \<and>
          was_submitted (event_pool c' ! j) = was_submitted (event_pool c ! j)) \<and>
     id' c' = id' c \<and> base_event c' = base_event c \<and>
     event_freelist_head c' = event_freelist_head c"
proof (cases "hs = []")
  case True
  with q have "head (submitted_event_list c) = None" by simp
  with h True show ?thesis
    by (simp add: iree_hal_cuda_tracing_notify_submitted_def)
next
  case False
  let ?pool = "event_pool c"
  let ?t = "last hs"
  let ?pool' = "?pool[?t := (?pool ! ?t)\<lparr>next_submission := Some h\<rparr>]"
  from q False have hd: "head (submitted_event_list c) = Some (hd hs)" by (rule path_head)
  from tl False have t: "tail (submitted_event_list c) = Some ?t" by simp
  from q False have tin: "?t < length ?pool" by (rule path_last_in_pool)
  from h(3) False have th: "?t \<noteq> h" by (metis last_in_set)
  from q have dist: "distinct hs" by (rule path_distinct)
  have run: "iree_hal_cuda_tracing_notify_submitted c el =
      Inr (c\<lparr>event_pool := ?pool',
             submitted_event_list := \<lparr>head = Some (hd hs), tail = Some h\<rparr>\<rparr>)"
    using h hd t tin by (simp add: iree_hal_cuda_tracing_notify_submitted_def)
  have butlast: "\<forall>x \<in> set (butlast hs).
      next_submission (?pool' ! x) = next_submission (?pool ! x)"
  proof
    fix x assume x: "x \<in> set (butlast hs)"
    with dist False have "x \<noteq> ?t"
      by (metis append_butlast_last_id distinct_butlast not_distinct_conv_prefix
          distinct_append disjoint_iff list.set_intros(1))
    then show "next_submission (?pool' ! x) = next_submission (?pool ! x)"
      by (simp add: nth_update)
  qed
  have "path next_submission ?pool' (head (submitted_event_list c)) (hs @ [h])"
    using q False _ butlast
  proof (rule path_snoc)
    show "length ?pool' = length ?pool" by simp
    show "next_submission (?pool' ! ?t) = Some h" using tin by (simp add: nth_update)
    show "h < length ?pool" by (rule h(2))
    show "next_submission (?pool' ! h) = None" using th h(4) by (simp add: nth_update)
  qed
  with run hd show ?thesis
    by (auto simp: nth_update)
qed

lemma context_fields_kept:
  assumes "c1\<lparr>event_pool := event_pool c, event_freelist_head := event_freelist_head c\<rparr> = c"
  shows "submitted_event_list c1 = submitted_event_list c" "id' c1 = id' c"
    "base_event c1 = base_event c"
proof -
  have "submitted_event_list
      (c1\<lparr>event_pool := event_pool c, event_freelist_head := event_freelist_head c\<rparr>) =
      submitted_event_list c1" by simp
  with assms show "submitted_event_list c1 = submitted_event_list c" by simp
  have "id' (c1\<lparr>event_pool := event_pool c, event_freelist_head := event_freelist_head c\<rparr>) =
      id' c1" by simp
  with assms show "id' c1 = id' c" by simp
  have "base_event (c1\<lparr>event_pool := event_pool c, event_freelist_head := event_freelist_head c\<rparr>) =
      base_event c1" by simp
  with assms show "base_event c1 = base_event c" by simp
qed

lemma allocate_result:
  assumes "iree_hal_cuda_tracing_context_allocate symbols v (Some raw) zone_id = Inr c"
    and "0 < length (event_pool raw)"
  shows "query_capacity c = length (event_pool raw) \<and>
         length (event_pool c) = query_capacity c \<and>
         event_freelist_head c = Some 0 \<and>
         path next_in_command_buffer (event_pool c) (event_freelist_head c)
           [0..<query_capacity c] \<and>
         next_in_command_buffer (event_pool c ! (query_capacity c - 1)) = None \<and>
         (\<forall>j<query_capacity c.
            next_in_command_buffer (event_pool c ! j) =
              (if Suc j = query_capacity c then None else Some (Suc j)) \<and>
            next_submission (event_pool c ! j) = None \<and>
            \<not> was_submitted (event_pool c ! j)) \<and>
         submitted_event_list c = \<lparr>head = None, tail = None\<rparr>"
proof -
  let ?n = "length (event_pool raw)"
  from assms(1) obtain pool where
    loop: "allocate_event_pool symbols ?n 0 (event_pool raw) = Inr pool"
    and c: "event_pool c = pool" "query_capacity c = ?n" "event_freelist_head c = Some 0"
      "submitted_event_list c = \<lparr>head = None, tail = None\<rparr>"
    by (auto simp: iree_hal_cuda_tracing_context_allocate_def Let_def
        split: sum.splits option.splits if_splits)
  have len: "length pool = ?n"
    using allocate_event_pool_length [OF loop] .
  have links: "\<forall>j<?n. next_submission (pool ! j) = None \<and> \<not> was_submitted (pool ! j) \<and>
      next_in_command_buffer (pool ! j) = (if Suc j = ?n then None else Some (Suc j))"
    using allocate_event_pool_links [OF loop refl] by simp
  then have nexts: "\<forall>j<?n. next_in_command_buffer (pool ! j) =
      (if Suc j = ?n then None else Some (Suc j))"
    by simp
  have "path next_in_command_buffer pool (Some 0) [0..<?n]"
    using len nexts assms(2) by (rule path_upto)
  moreover have "next_in_command_buffer (pool ! (?n - 1)) = None"
    using nexts assms(2) by simp
  ultimately show ?thesis
    using c len links by simp
qed

subsection \<open>Evaluation of the model on concrete inputs\<close>

lemma replicate_numeral:
  "replicate (numeral k) x = x # replicate (pred_numeral k) x"
  by (simp add: numeral_eq_Suc)

lemma allocate_event_pool_step:
  "i < n \<Longrightarrow> cuEventCreate symbols i \<noteq> None \<Longrightarrow>
   allocate_event_pool symbols n i pool =
     allocate_event_pool symbols n (i + 1)
       (let pool1 = pool[i := (pool ! i)\<lparr>event := the (cuEventCreate symbols i)\<rparr>];
            pool2 = (if 0 < i
                     then pool1[i - 1 := (pool1 ! (i - 1))\<lparr>next_in_command_buffer := Some i\<rparr>]
                     else pool1);
            pool3 = pool2[i := (pool2 ! i)\<lparr>next_submission := None\<rparr>];
            pool4 = pool3[i := (pool3 ! i)\<lparr>was_submitted := False\<rparr>]
        in if i + 1 = n
           then pool4[i := (pool4 ! i)\<lparr>next_in_command_buffer := None\<rparr>]
           else pool4)"
  by (subst allocate_event_pool.simps) (auto simp: Let_def)

lemmas model_defs =
  replicate_numeral fresh_run_def fresh_client_def fresh_context_def queued_context_def allocated_context_def
  iree_hal_cuda_tracing_context_allocate_def raw_context_def raw_event_def
  ready_device_def failing_device_def
  iree_hal_cuda_tracing_context_initial_calibration_def Let_def
  client_call_def iree_hal_cuda_stream_tracing_context_insert_query_def
  iree_hal_cuda_graph_tracing_context_insert_query_def
  iree_hal_cuda_tracing_context_event_list_append_event_def
  iree_hal_cuda_tracing_notify_submitted_def iree_hal_cuda_tracing_context_collect_def
  iree_hal_cuda_tracing_free_def to_uint32_def to_uint16_def
  ready_def resolved_def discarded_def
  allocate_event_pool_step allocate_event_pool_stop
  collect_events.simps collect_submissions.simps free_notify.simps

lemma queued_context_reached:
  "fresh_run 6 True
     [Insert_Query 0, Insert_Query 0, Insert_Query 0, Insert_Query 1,
      Notify_Submitted 0, Notify_Submitted 1]
   = Some (Inr \<lparr>ctx = queued_context,
                 event_lists = [\<lparr>head = Some 0, tail = Some 2\<rparr>, \<lparr>head = Some 3, tail = Some 3\<rparr>],
                 notified = [], issued = [0, 1, 2, 3]\<rparr>)"
  by (simp add: model_defs)

subsection \<open>Collect on an empty submission queue\<close>

text \<open>
  C7. Calling Collect when the Submission Queue is empty is a no-op: no
  notification reaches the sink and the context (free list, queue, every
  field of every pool slot) is returned as it was.
\<close>

theorem collect_empty_queue_noop:
  "head (submitted_event_list context) = None \<Longrightarrow>
   iree_hal_cuda_tracing_context_collect symbols context snk = Some (Inr (context, snk))"
  by (simp add: iree_hal_cuda_tracing_context_collect_def)

theorem collect_empty_queue_noop_witness:
  "head (submitted_event_list ((raw_context 2)\<lparr>submitted_event_list := \<lparr>head = None, tail = Some 1\<rparr>\<rparr>)) = None \<and>
   iree_hal_cuda_tracing_context_collect failing_device
     ((raw_context 2)\<lparr>submitted_event_list := \<lparr>head = None, tail = Some 1\<rparr>\<rparr>) [(1, 0, 5)]
   = Some (Inr ((raw_context 2)\<lparr>submitted_event_list := \<lparr>head = None, tail = Some 1\<rparr>\<rparr>, [(1, 0, 5)]))"
  using collect_empty_queue_noop
    [of "(raw_context 2)\<lparr>submitted_event_list := \<lparr>head = None, tail = Some 1\<rparr>\<rparr>"
        failing_device "[(1, 0, 5)]"]
  by simp

subsection \<open>Collect and events whose timestamp is not available\<close>

text \<open>
  C1 (as the code has it). Collect is called on a context whose Submission
  Queue holds the chains with the heads \<open>hs\<close>, the chain of head \<open>h\<close> being
  \<open>chain h\<close>. A primitive whose device timestamp is not available ends the walk
  of its own chain only: of every chain exactly the primitives before its
  first unavailable one are reported, in chain order, chain after chain in
  queue order. The walk of the queue itself does not stop there: every later
  queue entry is processed in the same call, and Collect returns with the
  Submission Queue empty, so that nothing is left in it for a later call.
\<close>

theorem collect_stops_chain_not_queue:
  assumes "path next_submission (event_pool c) (head (submitted_event_list c)) hs"
    and "\<forall>h \<in> set hs. path next_in_command_buffer (event_pool c) (Some h) (chain h)"
  shows "\<exists>c'. iree_hal_cuda_tracing_context_collect symbols c snk =
           Some (Inr (c', snk @ concat (map (\<lambda>h. map (resolved symbols c)
                                                  (takeWhile (ready symbols c) (chain h))) hs))) \<and>
         head (submitted_event_list c') = None \<and>
         event_freelist_head c' = event_freelist_head c"
  using assms by (rule collect_walk)

theorem collect_stops_chain_not_queue_witness:
  "path next_submission (event_pool queued_context)
     (head (submitted_event_list queued_context)) [0, 3] \<and>
   path next_in_command_buffer (event_pool queued_context) (Some 0) [0, 1, 2] \<and>
   path next_in_command_buffer (event_pool queued_context) (Some 3) [3] \<and>
   (\<exists>c'. iree_hal_cuda_tracing_context_collect failing_device queued_context [] =
            Some (Inr (c', [(1, 0, 100), (1, 3, 103)])) \<and>
          head (submitted_event_list c') = None \<and>
          event_freelist_head c' = Some 4)"
proof -
  have q: "path next_submission (event_pool queued_context)
             (head (submitted_event_list queued_context)) [0, 3]"
    by (simp add: queued_context_def)
  have ch: "\<forall>h \<in> set [0, 3]. path next_in_command_buffer (event_pool queued_context) (Some h)
              (if h = 0 then [0, 1, 2] else [3])"
    by (simp add: queued_context_def)
  show ?thesis
    using q ch
      collect_stops_chain_not_queue
        [OF q ch, of failing_device "[]"]
    by (simp add: ready_def resolved_def failing_device_def ready_device_def
        queued_context_def to_uint32_def)
qed

text \<open>
  The claim as the spec words it fails: slot 1 is not available on
  \<open>failing_device\<close>, and yet after this one Collect the queue is empty, the
  later entry (query 3) has been reported, and the head of the partly
  reported chain carries \<open>was_submitted\<close>.
\<close>

theorem collect_unavailable_counterexample:
  "fresh_run 6 True
     [Insert_Query 0, Insert_Query 0, Insert_Query 0, Insert_Query 1,
      Notify_Submitted 0, Notify_Submitted 1, Collect_Context failing_device]
   = Some (Inr \<lparr>ctx =
        \<lparr>id' = 1, base_event = 106, event_freelist_head = Some 4,
         submitted_event_list = \<lparr>head = None, tail = Some 3\<rparr>,
         query_capacity = 6, verbosity = 0,
         event_pool =
           [\<lparr>event = 100, next_in_command_buffer = Some 1, next_submission = Some 3,
             was_submitted = True\<rparr>,
            \<lparr>event = 101, next_in_command_buffer = Some 2, next_submission = None,
             was_submitted = False\<rparr>,
            \<lparr>event = 102, next_in_command_buffer = None, next_submission = None,
             was_submitted = False\<rparr>,
            \<lparr>event = 103, next_in_command_buffer = None, next_submission = None,
             was_submitted = True\<rparr>,
            \<lparr>event = 104, next_in_command_buffer = Some 5, next_submission = None,
             was_submitted = False\<rparr>,
            \<lparr>event = 105, next_in_command_buffer = None, next_submission = None,
             was_submitted = False\<rparr>]\<rparr>,
        event_lists = [\<lparr>head = Some 0, tail = Some 2\<rparr>, \<lparr>head = Some 3, tail = Some 3\<rparr>],
        notified = [(1, 0, 100), (1, 3, 103)], issued = [0, 1, 2, 3]\<rparr>)"
  by (simp add: model_defs)

subsection \<open>The pool after allocation\<close>

text \<open>
  C8. After a successful Allocate with capacity N (the size of the pool array,
  which is positive), the free-list head is slot 0, the N slots form one free
  list in ascending index order through \<open>next_in_command_buffer\<close>, the last
  slot's link is null, and every slot has a null \<open>next_submission\<close> and
  \<open>was_submitted = false\<close>. The submission queue is empty.
\<close>

theorem allocate_links_free_list:
  assumes "iree_hal_cuda_tracing_context_allocate symbols v (Some raw) zone_id = Inr c"
    and "0 < length (event_pool raw)"
  shows "query_capacity c = length (event_pool raw) \<and>
         length (event_pool c) = query_capacity c \<and>
         event_freelist_head c = Some 0 \<and>
         path next_in_command_buffer (event_pool c) (event_freelist_head c)
           [0..<query_capacity c] \<and>
         next_in_command_buffer (event_pool c ! (query_capacity c - 1)) = None \<and>
         (\<forall>j<query_capacity c.
            next_in_command_buffer (event_pool c ! j) =
              (if Suc j = query_capacity c then None else Some (Suc j)) \<and>
            next_submission (event_pool c ! j) = None \<and>
            \<not> was_submitted (event_pool c ! j)) \<and>
         submitted_event_list c = \<lparr>head = None, tail = None\<rparr>"
  using assms by (rule allocate_result)

theorem allocate_links_free_list_witness:
  "iree_hal_cuda_tracing_context_allocate ready_device 0 (Some (raw_context 3)) 1 =
     Inr \<lparr>id' = 1, base_event = 103, event_freelist_head = Some 0,
          submitted_event_list = \<lparr>head = None, tail = None\<rparr>,
          query_capacity = 3, verbosity = 0,
          event_pool =
            [\<lparr>event = 100, next_in_command_buffer = Some 1, next_submission = None,
              was_submitted = False\<rparr>,
             \<lparr>event = 101, next_in_command_buffer = Some 2, next_submission = None,
              was_submitted = False\<rparr>,
             \<lparr>event = 102, next_in_command_buffer = None, next_submission = None,
              was_submitted = False\<rparr>]\<rparr> \<and>
   0 < length (event_pool (raw_context 3)) \<and>
   path next_in_command_buffer
     [\<lparr>event = 100, next_in_command_buffer = Some 1, next_submission = None,
       was_submitted = False\<rparr>,
      \<lparr>event = 101, next_in_command_buffer = Some 2, next_submission = None,
       was_submitted = False\<rparr>,
      \<lparr>event = 102, next_in_command_buffer = None, next_submission = None,
       was_submitted = False\<rparr>] (Some 0) [0..<3]"
proof -
  have run: "iree_hal_cuda_tracing_context_allocate ready_device 0 (Some (raw_context 3)) 1 =
     Inr \<lparr>id' = 1, base_event = 103, event_freelist_head = Some 0,
          submitted_event_list = \<lparr>head = None, tail = None\<rparr>,
          query_capacity = 3, verbosity = 0,
          event_pool =
            [\<lparr>event = 100, next_in_command_buffer = Some 1, next_submission = None,
              was_submitted = False\<rparr>,
             \<lparr>event = 101, next_in_command_buffer = Some 2, next_submission = None,
              was_submitted = False\<rparr>,
             \<lparr>event = 102, next_in_command_buffer = None, next_submission = None,
              was_submitted = False\<rparr>]\<rparr>"
    by (simp add: model_defs)
  have pos: "0 < length (event_pool (raw_context 3))"
    by (simp add: raw_context_def)
  from allocate_links_free_list [OF run pos] run pos show ?thesis
    by simp
qed

subsection \<open>Free with an empty and with a non-empty free list\<close>

text \<open>
  C10. Free is called with a non-empty event list (head \<open>h\<close>, tail \<open>t\<close>, events
  \<open>xs\<close>). When the context's free list is empty, Free installs the list as
  the free list and returns early: the pool is returned as it was, so
  \<open>was_submitted\<close> and \<open>next_submission\<close> of the head are not reset, and the
  caller's event list is returned unchanged, head and tail still set. When
  the free list is not empty (its head is \<open>f\<close>), the head's two fields are
  reset, the tail is linked to \<open>f\<close>, and the caller's head and tail are nulled.
\<close>

theorem free_with_empty_free_list_returns_early:
  assumes "path next_in_command_buffer (event_pool c) (head event_list) xs"
    and "head event_list = Some h"
    and "tail event_list = Some t" and "t < length (event_pool c)"
  shows "iree_hal_cuda_tracing_free (c\<lparr>event_freelist_head := None\<rparr>) event_list snk =
           Some (Inr (c\<lparr>event_freelist_head := Some h\<rparr>, event_list,
                      snk @ (if was_submitted (event_pool c ! h) then []
                             else map (discarded c) xs))) \<and>
         (\<exists>c'. iree_hal_cuda_tracing_free (c\<lparr>event_freelist_head := Some f\<rparr>) event_list snk =
                  Some (Inr (c', \<lparr>head = None, tail = None\<rparr>,
                             snk @ (if was_submitted (event_pool c ! h) then []
                                    else map (discarded c) xs))) \<and>
                event_freelist_head c' = Some h \<and>
                next_submission (event_pool c' ! h) = None \<and>
                \<not> was_submitted (event_pool c' ! h) \<and>
                next_in_command_buffer (event_pool c' ! t) = Some f)"
proof -
  from assms have h: "h < length (event_pool c)" by (cases xs) auto
  have same: "discarded (c\<lparr>event_freelist_head := p\<rparr>) = discarded c" for p
    by (rule ext) (simp add: discarded_def)
  have "iree_hal_cuda_tracing_free (c\<lparr>event_freelist_head := None\<rparr>) event_list snk =
      Some (Inr (c\<lparr>event_freelist_head := Some h\<rparr>, event_list,
                 snk @ (if was_submitted (event_pool c ! h) then []
                        else map (discarded c) xs)))"
    using free_empty_freelist [of "c\<lparr>event_freelist_head := None\<rparr>" event_list xs h snk] assms
    by (simp add: same)
  moreover have "\<exists>c'. iree_hal_cuda_tracing_free (c\<lparr>event_freelist_head := Some f\<rparr>) event_list snk =
                  Some (Inr (c', \<lparr>head = None, tail = None\<rparr>,
                             snk @ (if was_submitted (event_pool c ! h) then []
                                    else map (discarded c) xs))) \<and>
                event_freelist_head c' = Some h \<and>
                next_submission (event_pool c' ! h) = None \<and>
                \<not> was_submitted (event_pool c' ! h) \<and>
                next_in_command_buffer (event_pool c' ! t) = Some f"
    using free_nonempty_freelist
        [of "c\<lparr>event_freelist_head := Some f\<rparr>" event_list xs h f t snk] assms h
    by (simp add: same nth_update)
  ultimately show ?thesis by simp
qed

theorem free_with_empty_free_list_returns_early_witness:
  "path next_in_command_buffer (event_pool queued_context) (head \<lparr>head = Some 0, tail = Some 2\<rparr>)
     [0, 1, 2] \<and>
   head \<lparr>head = Some 0, tail = Some 2\<rparr> = Some 0 \<and>
   tail \<lparr>head = Some 0, tail = Some 2\<rparr> = Some 2 \<and>
   2 < length (event_pool queued_context) \<and>
   iree_hal_cuda_tracing_free (queued_context\<lparr>event_freelist_head := None\<rparr>)
     \<lparr>head = Some 0, tail = Some 2\<rparr> [] =
     Some (Inr (queued_context\<lparr>event_freelist_head := Some 0\<rparr>, \<lparr>head = Some 0, tail = Some 2\<rparr>,
                [(1, 0, 0), (1, 1, 0), (1, 2, 0)])) \<and>
   next_submission (event_pool (queued_context\<lparr>event_freelist_head := Some 0\<rparr>) ! 0) = Some 3 \<and>
   (\<exists>c'. iree_hal_cuda_tracing_free (queued_context\<lparr>event_freelist_head := Some 4\<rparr>)
            \<lparr>head = Some 0, tail = Some 2\<rparr> [] =
            Some (Inr (c', \<lparr>head = None, tail = None\<rparr>, [(1, 0, 0), (1, 1, 0), (1, 2, 0)])) \<and>
          event_freelist_head c' = Some 0 \<and>
          next_submission (event_pool c' ! 0) = None \<and>
          \<not> was_submitted (event_pool c' ! 0) \<and>
          next_in_command_buffer (event_pool c' ! 2) = Some 4)"
proof -
  have p: "path next_in_command_buffer (event_pool queued_context)
      (head \<lparr>head = Some 0, tail = Some 2\<rparr>) [0, 1, 2]"
    by (simp add: queued_context_def)
  have h: "head \<lparr>head = Some 0, tail = Some 2\<rparr> = Some 0" by simp
  have t: "tail \<lparr>head = Some 0, tail = Some 2\<rparr> = Some 2" by simp
  have l: "2 < length (event_pool queued_context)" by (simp add: queued_context_def)
  have d: "map (discarded queued_context) [0, 1, 2] = [(1, 0, 0), (1, 1, 0), (1, 2, 0)]"
    by (simp add: discarded_def queued_context_def to_uint32_def)
  have w: "\<not> was_submitted (event_pool queued_context ! 0)"
    "next_submission (event_pool queued_context ! 0) = Some 3"
    by (simp_all add: queued_context_def)
  from free_with_empty_free_list_returns_early [OF p h t l, of "[]" 4] p h t l d w
  show ?thesis by simp
qed

subsection \<open>The assertion of the insert functions\<close>

text \<open>
  C9. Both insert functions pop the free-list head and then assert that the
  popped event's \<open>next_in_command_buffer\<close> is not null. A pop from an empty
  free list dereferences the null head; a pop of the last free event (its
  link is null) fails the assertion; a successful insert with assertions
  therefore never leaves the free list empty. On a freshly allocated context
  with capacity N = \<open>query_capacity c\<close>, any number \<open>n < N\<close> of insertions
  succeeds and the N-th fails the assertion: at most N - 1 events can be
  outstanding.
\<close>

theorem last_free_event_is_never_handed_out:
  assumes "iree_hal_cuda_tracing_context_allocate symbols v (Some raw) zone_id = Inr c"
    and "0 < length (event_pool raw)"
  shows "(event_freelist_head c0 = None \<longrightarrow>
            iree_hal_cuda_stream_tracing_context_insert_query assertions c0 el =
              Inl NullDereference \<and>
            iree_hal_cuda_graph_tracing_context_insert_query assertions symbols0 c0 el =
              Inl NullDereference) \<and>
         (event_freelist_head c0 = Some i \<and> i < length (event_pool c0) \<and>
          next_in_command_buffer (event_pool c0 ! i) = None \<longrightarrow>
            iree_hal_cuda_stream_tracing_context_insert_query True c0 el =
              Inl AssertionFailure \<and>
            iree_hal_cuda_graph_tracing_context_insert_query True symbols0 c0 el =
              Inl AssertionFailure) \<and>
         (iree_hal_cuda_stream_tracing_context_insert_query True c0 el = Inr (c1, el1, q) \<or>
          iree_hal_cuda_graph_tracing_context_insert_query True symbols0 c0 el = Inr (c1, el1, q)
            \<longrightarrow> event_freelist_head c1 \<noteq> None) \<and>
         (n < query_capacity c \<longrightarrow>
            (\<exists>s'. client_run True (replicate n (Insert_Query 0))
                     \<lparr>ctx = c, event_lists = [\<lparr>head = None, tail = None\<rparr>],
                      notified = [], issued = []\<rparr> = Some (Inr s') \<and>
                   issued s' = map (\<lambda>i. to_uint16 (to_uint32 i)) [0..<n])) \<and>
         client_run True (replicate (query_capacity c) (Insert_Query 0))
           \<lparr>ctx = c, event_lists = [\<lparr>head = None, tail = None\<rparr>],
            notified = [], issued = []\<rparr> = Some (Inl AssertionFailure)"
proof -
  let ?el = "\<lparr>head = None, tail = None\<rparr>"
  let ?N = "query_capacity c"
  note links = allocate_result [OF assms]
  from links have cap: "?N = length (event_pool raw)" by blast
  from links
  have free: "path next_in_command_buffer (event_pool c) (event_freelist_head c) [0..<?N]"
    by blast
  have empty: "path next_in_command_buffer (event_pool c) (head ?el) []" by simp
  have tl: "[] \<noteq> [] \<Longrightarrow> tail ?el = Some (last [])" by simp
  have disj: "set [] \<inter> set [0..<?N] = {}" by simp
  have k: "0 < length [?el]" by simp
  have upd: "[?el][0 := ?el] = [?el]" by simp
  have null: "event_freelist_head c0 = None \<longrightarrow>
      iree_hal_cuda_stream_tracing_context_insert_query assertions c0 el = Inl NullDereference \<and>
      iree_hal_cuda_graph_tracing_context_insert_query assertions symbols0 c0 el =
        Inl NullDereference"
    by (simp add: iree_hal_cuda_stream_tracing_context_insert_query_def
        iree_hal_cuda_graph_tracing_context_insert_query_def)
  have single: "event_freelist_head c0 = Some i \<and> i < length (event_pool c0) \<and>
      next_in_command_buffer (event_pool c0 ! i) = None \<longrightarrow>
      iree_hal_cuda_stream_tracing_context_insert_query True c0 el = Inl AssertionFailure \<and>
      iree_hal_cuda_graph_tracing_context_insert_query True symbols0 c0 el = Inl AssertionFailure"
    by (simp add: iree_hal_cuda_stream_tracing_context_insert_query_def
        iree_hal_cuda_graph_tracing_context_insert_query_def)
  have nonempty: "iree_hal_cuda_stream_tracing_context_insert_query True c0 el = Inr (c1, el1, q) \<or>
      iree_hal_cuda_graph_tracing_context_insert_query True symbols0 c0 el = Inr (c1, el1, q)
        \<longrightarrow> event_freelist_head c1 \<noteq> None"
    by (auto simp: iree_hal_cuda_stream_tracing_context_insert_query_def
        iree_hal_cuda_graph_tracing_context_insert_query_def
        split: option.splits if_splits sum.splits)
  have succeed: "n < ?N \<longrightarrow>
      (\<exists>s'. client_run True (replicate n (Insert_Query 0))
               \<lparr>ctx = c, event_lists = [?el], notified = [], issued = []\<rparr> = Some (Inr s') \<and>
             issued s' = map (\<lambda>i. to_uint16 (to_uint32 i)) [0..<n])"
  proof
    assume n: "n < ?N"
    then have le: "n \<le> length [0..<?N]" "n < length [0..<?N]" by simp_all
    from insert_run [where assertions = True and rest = "[]" and snk = "[]" and qs = "[]",
        OF free empty tl disj le k] n
    show "\<exists>s'. client_run True (replicate n (Insert_Query 0))
               \<lparr>ctx = c, event_lists = [?el], notified = [], issued = []\<rparr> = Some (Inr s') \<and>
             issued s' = map (\<lambda>i. to_uint16 (to_uint32 i)) [0..<n]"
      by (auto simp: take_upt)
  qed
  have "[0..<?N] \<noteq> []" using assms(2) cap by simp
  from insert_run_last_asserts [where snk = "[]" and qs = "[]", OF free empty tl disj this k]
  have fail: "client_run True (replicate ?N (Insert_Query 0))
      \<lparr>ctx = c, event_lists = [?el], notified = [], issued = []\<rparr> = Some (Inl AssertionFailure)"
    by simp
  from null single nonempty succeed fail show ?thesis by blast
qed

theorem last_free_event_is_never_handed_out_witness:
  "iree_hal_cuda_tracing_context_allocate ready_device 0 (Some (raw_context 3)) 1 =
     Inr allocated_context \<and>
   0 < length (event_pool (raw_context 3)) \<and>
   iree_hal_cuda_stream_tracing_context_insert_query False
     (allocated_context\<lparr>event_freelist_head := None\<rparr>) \<lparr>head = None, tail = None\<rparr> =
     Inl NullDereference \<and>
   iree_hal_cuda_graph_tracing_context_insert_query False ready_device
     (allocated_context\<lparr>event_freelist_head := None\<rparr>) \<lparr>head = None, tail = None\<rparr> =
     Inl NullDereference \<and>
   iree_hal_cuda_stream_tracing_context_insert_query True
     (allocated_context\<lparr>event_freelist_head := Some 2\<rparr>) \<lparr>head = None, tail = None\<rparr> =
     Inl AssertionFailure \<and>
   iree_hal_cuda_graph_tracing_context_insert_query True ready_device
     (allocated_context\<lparr>event_freelist_head := Some 2\<rparr>) \<lparr>head = None, tail = None\<rparr> =
     Inl AssertionFailure \<and>
   (\<exists>c1 el1 q.
      iree_hal_cuda_stream_tracing_context_insert_query True allocated_context
        \<lparr>head = None, tail = None\<rparr> = Inr (c1, el1, q) \<and>
      event_freelist_head c1 = Some 1 \<and> event_freelist_head c1 \<noteq> None) \<and>
   (\<exists>s'. client_run True (replicate 2 (Insert_Query 0))
            \<lparr>ctx = allocated_context, event_lists = [\<lparr>head = None, tail = None\<rparr>],
             notified = [], issued = []\<rparr> = Some (Inr s') \<and>
          issued s' = [0, 1]) \<and>
   client_run True (replicate 3 (Insert_Query 0))
     \<lparr>ctx = allocated_context, event_lists = [\<lparr>head = None, tail = None\<rparr>],
      notified = [], issued = []\<rparr> = Some (Inl AssertionFailure)"
proof -
  have run: "iree_hal_cuda_tracing_context_allocate ready_device 0 (Some (raw_context 3)) 1 =
     Inr allocated_context"
    by (simp add: model_defs)
  have pos: "0 < length (event_pool (raw_context 3))"
    by (simp add: raw_context_def)
  note inst = last_free_event_is_never_handed_out [OF run pos]
  have ids: "map (\<lambda>i. to_uint16 (to_uint32 i)) [0..<2] = [0, 1]"
    by (simp add: to_uint16_def to_uint32_def numeral_2_eq_2)
  from inst [where ?c0.0 = "allocated_context\<lparr>event_freelist_head := None\<rparr>"
      and assertions = False and ?symbols0.0 = ready_device and el = "\<lparr>head = None, tail = None\<rparr>"]
  have a: "iree_hal_cuda_stream_tracing_context_insert_query False
     (allocated_context\<lparr>event_freelist_head := None\<rparr>) \<lparr>head = None, tail = None\<rparr> =
     Inl NullDereference \<and>
   iree_hal_cuda_graph_tracing_context_insert_query False ready_device
     (allocated_context\<lparr>event_freelist_head := None\<rparr>) \<lparr>head = None, tail = None\<rparr> =
     Inl NullDereference"
    by simp
  from inst [where ?c0.0 = "allocated_context\<lparr>event_freelist_head := Some 2\<rparr>"
      and i = 2 and ?symbols0.0 = ready_device and el = "\<lparr>head = None, tail = None\<rparr>"]
  have b: "iree_hal_cuda_stream_tracing_context_insert_query True
     (allocated_context\<lparr>event_freelist_head := Some 2\<rparr>) \<lparr>head = None, tail = None\<rparr> =
     Inl AssertionFailure \<and>
   iree_hal_cuda_graph_tracing_context_insert_query True ready_device
     (allocated_context\<lparr>event_freelist_head := Some 2\<rparr>) \<lparr>head = None, tail = None\<rparr> =
     Inl AssertionFailure"
    by (simp add: allocated_context_def)
  from inst [where n = 2]
  have c: "\<exists>s'. client_run True (replicate 2 (Insert_Query 0))
            \<lparr>ctx = allocated_context, event_lists = [\<lparr>head = None, tail = None\<rparr>],
             notified = [], issued = []\<rparr> = Some (Inr s') \<and>
          issued s' = [0, 1]"
    by (simp add: ids allocated_context_def)
  from inst
  have d: "client_run True (replicate 3 (Insert_Query 0))
     \<lparr>ctx = allocated_context, event_lists = [\<lparr>head = None, tail = None\<rparr>],
      notified = [], issued = []\<rparr> = Some (Inl AssertionFailure)"
    by (simp add: allocated_context_def)
  have e: "\<exists>c1 el1 q.
      iree_hal_cuda_stream_tracing_context_insert_query True allocated_context
        \<lparr>head = None, tail = None\<rparr> = Inr (c1, el1, q) \<and>
      event_freelist_head c1 = Some 1 \<and> event_freelist_head c1 \<noteq> None"
    by (simp add: model_defs)
  from run pos a b c d e show ?thesis by simp
qed

subsection \<open>Exhaustion of the pool\<close>

text \<open>
  C2 (the code differs). On a context of capacity 4, with assertions, the
  first three insertions succeed and the fourth, which pops the last free
  event, stops on the assertion. Without assertions the four insertions
  succeed and the fifth dereferences the null free-list head.
\<close>

theorem capacity_four_fourth_insert_asserts:
  "fresh_run 4 True [Insert_Query 0, Insert_Query 0, Insert_Query 0] =
     Some (Inr \<lparr>ctx =
        \<lparr>id' = 1, base_event = 104, event_freelist_head = Some 3,
         submitted_event_list = \<lparr>head = None, tail = None\<rparr>,
         query_capacity = 4, verbosity = 0,
         event_pool =
           [\<lparr>event = 100, next_in_command_buffer = Some 1, next_submission = None,
             was_submitted = False\<rparr>,
            \<lparr>event = 101, next_in_command_buffer = Some 2, next_submission = None,
             was_submitted = False\<rparr>,
            \<lparr>event = 102, next_in_command_buffer = None, next_submission = None,
             was_submitted = False\<rparr>,
            \<lparr>event = 103, next_in_command_buffer = None, next_submission = None,
             was_submitted = False\<rparr>]\<rparr>,
        event_lists = [\<lparr>head = Some 0, tail = Some 2\<rparr>, \<lparr>head = None, tail = None\<rparr>],
        notified = [], issued = [0, 1, 2]\<rparr>) \<and>
   fresh_run 4 True [Insert_Query 0, Insert_Query 0, Insert_Query 0, Insert_Query 0] =
     Some (Inl AssertionFailure) \<and>
   fresh_run 4 False
     [Insert_Query 0, Insert_Query 0, Insert_Query 0, Insert_Query 0, Insert_Query 0] =
     Some (Inl NullDereference)"
  by (simp add: model_defs)

subsection \<open>Queries that are never reported\<close>

text \<open>
  C3 (the code differs). Two runs in which a query id that was handed out is
  never reported to the sink. In the first (capacity 3, with assertions) the
  device fails on the event of query 1 during Collect: the chain is taken
  off the queue and its head marked \<open>was_submitted\<close>, a later Collect finds
  the queue empty, and Free reports nothing because of the mark. In the
  second (capacity 1, without assertions) every device call succeeds: the
  first Free finds the free list empty and returns without resetting
  \<open>was_submitted\<close>, so the Free of the second list, which was never
  submitted, reports nothing for the query 0 handed out again.
\<close>

theorem handed_out_queries_never_reported:
  "fresh_run 3 True
     [Insert_Query 0, Insert_Query 0, Notify_Submitted 0, Collect_Context failing_device,
      Collect_Context ready_device, Free_List 0] =
     Some (Inr \<lparr>ctx =
        \<lparr>id' = 1, base_event = 103, event_freelist_head = Some 0,
         submitted_event_list = \<lparr>head = None, tail = Some 0\<rparr>,
         query_capacity = 3, verbosity = 0,
         event_pool =
           [\<lparr>event = 100, next_in_command_buffer = Some 1, next_submission = None,
             was_submitted = False\<rparr>,
            \<lparr>event = 101, next_in_command_buffer = Some 2, next_submission = None,
             was_submitted = False\<rparr>,
            \<lparr>event = 102, next_in_command_buffer = None, next_submission = None,
             was_submitted = False\<rparr>]\<rparr>,
        event_lists = [\<lparr>head = None, tail = None\<rparr>, \<lparr>head = None, tail = None\<rparr>],
        notified = [(1, 0, 100)], issued = [0, 1]\<rparr>) \<and>
   fresh_run 1 False
     [Insert_Query 0, Notify_Submitted 0, Collect_Context ready_device, Free_List 0,
      Insert_Query 1, Free_List 1] =
     Some (Inr \<lparr>ctx =
        \<lparr>id' = 1, base_event = 101, event_freelist_head = Some 0,
         submitted_event_list = \<lparr>head = None, tail = Some 0\<rparr>,
         query_capacity = 1, verbosity = 0,
         event_pool =
           [\<lparr>event = 100, next_in_command_buffer = None, next_submission = None,
             was_submitted = True\<rparr>]\<rparr>,
        event_lists = [\<lparr>head = Some 0, tail = Some 0\<rparr>, \<lparr>head = Some 0, tail = Some 0\<rparr>],
        notified = [(1, 0, 100)], issued = [0, 0]\<rparr>)"
  by (simp add: model_defs)

subsection \<open>Free of a list that was never submitted, with the free list empty\<close>

text \<open>
  C4 (the code differs). Capacity 1, without assertions. The first list is
  filled, submitted, collected and freed; this Free finds the free list empty
  and leaves \<open>was_submitted\<close> set on slot 0. The second list then takes slot 0
  and is never submitted. Its Free, again with the free list empty, sends no
  notification, leaves \<open>was_submitted\<close> set and leaves the list's head and tail
  in place.
\<close>

theorem free_of_unsubmitted_list_reports_nothing:
  "fresh_run 1 False
     [Insert_Query 0, Notify_Submitted 0, Collect_Context ready_device, Free_List 0,
      Insert_Query 1] =
     Some (Inr \<lparr>ctx =
        \<lparr>id' = 1, base_event = 101, event_freelist_head = None,
         submitted_event_list = \<lparr>head = None, tail = Some 0\<rparr>,
         query_capacity = 1, verbosity = 0,
         event_pool =
           [\<lparr>event = 100, next_in_command_buffer = None, next_submission = None,
             was_submitted = True\<rparr>]\<rparr>,
        event_lists = [\<lparr>head = Some 0, tail = Some 0\<rparr>, \<lparr>head = Some 0, tail = Some 0\<rparr>],
        notified = [(1, 0, 100)], issued = [0, 0]\<rparr>) \<and>
   iree_hal_cuda_tracing_free
     \<lparr>id' = 1, base_event = 101, event_freelist_head = None,
      submitted_event_list = \<lparr>head = None, tail = Some 0\<rparr>,
      query_capacity = 1, verbosity = 0,
      event_pool =
        [\<lparr>event = 100, next_in_command_buffer = None, next_submission = None,
          was_submitted = True\<rparr>]\<rparr>
     \<lparr>head = Some 0, tail = Some 0\<rparr> [(1, 0, 100)] =
     Some (Inr (\<lparr>id' = 1, base_event = 101, event_freelist_head = Some 0,
                 submitted_event_list = \<lparr>head = None, tail = Some 0\<rparr>,
                 query_capacity = 1, verbosity = 0,
                 event_pool =
                   [\<lparr>event = 100, next_in_command_buffer = None, next_submission = None,
                     was_submitted = True\<rparr>]\<rparr>,
                \<lparr>head = Some 0, tail = Some 0\<rparr>, [(1, 0, 100)]))"
  by (simp add: model_defs)

subsection \<open>Events in two lists at once\<close>

text \<open>
  C5 (the code differs). Capacity 2, without assertions. After two
  insertions into the first list the free list is empty; Free then installs
  the list as the free list and returns with the caller's list untouched:
  slots 0 and 1 are on the free list and in the client's first list at once.
  An insertion into the second list then takes slot 0, which the first list
  still holds too.
\<close>

theorem freed_events_stay_in_callers_list:
  "fresh_run 2 False [Insert_Query 0, Insert_Query 0, Free_List 0] =
     Some (Inr \<lparr>ctx =
        \<lparr>id' = 1, base_event = 102, event_freelist_head = Some 0,
         submitted_event_list = \<lparr>head = None, tail = None\<rparr>,
         query_capacity = 2, verbosity = 0,
         event_pool =
           [\<lparr>event = 100, next_in_command_buffer = Some 1, next_submission = None,
             was_submitted = False\<rparr>,
            \<lparr>event = 101, next_in_command_buffer = None, next_submission = None,
             was_submitted = False\<rparr>]\<rparr>,
        event_lists = [\<lparr>head = Some 0, tail = Some 1\<rparr>, \<lparr>head = None, tail = None\<rparr>],
        notified = [(1, 0, 0), (1, 1, 0)], issued = [0, 1]\<rparr>) \<and>
   fresh_run 2 False [Insert_Query 0, Insert_Query 0, Free_List 0, Insert_Query 1] =
     Some (Inr \<lparr>ctx =
        \<lparr>id' = 1, base_event = 102, event_freelist_head = Some 1,
         submitted_event_list = \<lparr>head = None, tail = None\<rparr>,
         query_capacity = 2, verbosity = 0,
         event_pool =
           [\<lparr>event = 100, next_in_command_buffer = None, next_submission = None,
             was_submitted = False\<rparr>,
            \<lparr>event = 101, next_in_command_buffer = None, next_submission = None,
             was_submitted = False\<rparr>]\<rparr>,
        event_lists = [\<lparr>head = Some 0, tail = Some 1\<rparr>, \<lparr>head = Some 0, tail = Some 0\<rparr>],
        notified = [(1, 0, 0), (1, 1, 0)], issued = [0, 1, 0]\<rparr>)"
  by (simp add: model_defs)

subsection \<open>Order of the reported queries\<close>

text \<open>
  What holds as long as the events on the free list have a null
  \<open>next_submission\<close> (the state the non-empty path of Free leaves them in).
  The context has the free list \<open>fs\<close> and a Submission Queue with the heads
  \<open>hs\<close> (chain of head \<open>h\<close>: \<open>chain h\<close>), apart from the free list. A client
  builds a chain with \<open>n\<close> InsertQuery calls on an empty list, submits it and
  calls Collect while every event is ready. Then the \<open>n\<close> query ids handed out
  are distinct, the sink receives first the notifications of the chains
  submitted before, in queue order, and then exactly the \<open>n\<close> query ids of
  the new chain in the order they were appended, and the queue is empty
  afterwards. NotifySubmitted on an empty list returns the context unchanged.
  (Pool indexes are below \<open>2 ^ 16\<close>, as for the source's capacity of 16128,
  so the casts to \<open>uint16_t\<close> and \<open>uint32_t\<close> keep them.)
\<close>

lemma reported_in_order_on_clean_free_list:
  assumes free: "path next_in_command_buffer (event_pool c) (event_freelist_head c) fs"
    and queue: "path next_submission (event_pool c) (head (submitted_event_list c)) hs"
    and qtail: "hs \<noteq> [] \<Longrightarrow> tail (submitted_event_list c) = Some (last hs)"
    and chains: "\<forall>h \<in> set hs. path next_in_command_buffer (event_pool c) (Some h) (chain h)"
    and apart: "\<forall>h \<in> set hs. set (chain h) \<inter> set fs = {}"
    and clean: "\<forall>x \<in> set fs. next_submission (event_pool c ! x) = None"
    and n: "0 < n" "n \<le> length fs" "assertions \<Longrightarrow> n < length fs"
    and rdy: "\<forall>x < length (event_pool c). ready symbols c x"
    and small: "length (event_pool c) \<le> 2 ^ 16"
  shows "(head el0 = None \<longrightarrow> iree_hal_cuda_tracing_notify_submitted c el0 = Inr c) \<and>
     (\<exists>s'. client_run assertions
              (replicate n (Insert_Query 0) @ [Notify_Submitted 0, Collect_Context symbols])
              \<lparr>ctx = c, event_lists = [\<lparr>head = None, tail = None\<rparr>], notified = snk,
               issued = []\<rparr> = Some (Inr s') \<and>
            issued s' = take n fs \<and> distinct (issued s') \<and> length (issued s') = n \<and>
            notified s' =
              snk @ concat (map (\<lambda>h. map (resolved symbols c) (chain h)) hs) @
              map (resolved symbols c) (take n fs) \<and>
            map (fst \<circ> snd) (map (resolved symbols c) (take n fs)) = issued s' \<and>
            head (submitted_event_list (ctx s')) = None)"
proof -
  let ?el = "\<lparr>head = None, tail = None\<rparr>"
  let ?new = "take n fs"
  let ?ids = "map (\<lambda>i. to_uint16 (to_uint32 i)) ?new"
  have noop: "head el0 = None \<longrightarrow> iree_hal_cuda_tracing_notify_submitted c el0 = Inr c"
    by (simp add: iree_hal_cuda_tracing_notify_submitted_def)
  \<comment> \<open>the insertions\<close>
  have e1: "path next_in_command_buffer (event_pool c) (head ?el) []" by simp
  have e2: "[] \<noteq> [] \<Longrightarrow> tail ?el = Some (last [])" by simp
  have e3: "set [] \<inter> set fs = {}" by simp
  have e4: "0 < length [?el]" by simp
  define calls where "calls = [Notify_Submitted 0, Collect_Context symbols]"
  have "\<exists>c1 el1.
     client_run assertions (replicate n (Insert_Query 0) @ calls)
       \<lparr>ctx = c, event_lists = [?el], notified = snk, issued = []\<rparr> =
     client_run assertions calls
       \<lparr>ctx = c1, event_lists = [el1], notified = snk, issued = ?ids\<rparr> \<and>
     path next_in_command_buffer (event_pool c1) (head el1) ?new \<and>
     length (event_pool c1) = length (event_pool c) \<and>
     (\<forall>j. j \<notin> set ?new \<longrightarrow> event_pool c1 ! j = event_pool c ! j) \<and>
     (\<forall>j. event (event_pool c1 ! j) = event (event_pool c ! j) \<and>
          next_submission (event_pool c1 ! j) = next_submission (event_pool c ! j) \<and>
          was_submitted (event_pool c1 ! j) = was_submitted (event_pool c ! j)) \<and>
     c1\<lparr>event_pool := event_pool c, event_freelist_head := event_freelist_head c\<rparr> = c"
    using insert_run [where assertions = assertions and rest = calls and snk = snk and qs = "[]",
        OF free e1 e2 e3 n(2) n(3) e4]
    by simp blast
  then obtain c1 el1 where
    run1: "client_run assertions (replicate n (Insert_Query 0) @ calls)
       \<lparr>ctx = c, event_lists = [?el], notified = snk, issued = []\<rparr> =
     client_run assertions calls
       \<lparr>ctx = c1, event_lists = [el1], notified = snk, issued = ?ids\<rparr>"
    and path1: "path next_in_command_buffer (event_pool c1) (head el1) ?new"
    and len1: "length (event_pool c1) = length (event_pool c)"
    and frame1: "\<forall>j. j \<notin> set ?new \<longrightarrow> event_pool c1 ! j = event_pool c ! j"
    and fields1: "\<forall>j. event (event_pool c1 ! j) = event (event_pool c ! j) \<and>
          next_submission (event_pool c1 ! j) = next_submission (event_pool c ! j) \<and>
          was_submitted (event_pool c1 ! j) = was_submitted (event_pool c ! j)"
    and other1: "c1\<lparr>event_pool := event_pool c, event_freelist_head := event_freelist_head c\<rparr> = c"
    by blast
  note kept1 = context_fields_kept [OF other1]
  \<comment> \<open>the new chain and its head\<close>
  from n have new: "?new \<noteq> []" by (cases fs) auto
  define h where "h = hd fs"
  from n have hd_new: "hd ?new = h" by (cases fs) (auto simp: h_def)
  have sub: "set ?new \<subseteq> set fs" by (rule set_take_subset)
  from new hd_new have h_new: "h \<in> set ?new" by (metis hd_in_set)
  with sub have h_fs: "h \<in> set fs" by auto
  from path1 new have head1: "head el1 = Some h" unfolding hd_new [symmetric] by (rule path_head)
  have in_pool: "\<forall>x \<in> set ?new. x < length (event_pool c)"
    using path_in_pool [OF path1] len1 by auto
  have heads: "\<forall>k \<in> set hs. k \<in> set (chain k)"
  proof
    fix k assume "k \<in> set hs"
    with chains have "path next_in_command_buffer (event_pool c) (Some k) (chain k)" by simp
    then show "k \<in> set (chain k)" by (cases "chain k") auto
  qed
  with apart have hs_fs: "\<forall>k \<in> set hs. k \<notin> set fs" by blast
  with h_fs have h_hs: "h \<notin> set hs" by blast
  \<comment> \<open>the submission\<close>
  have queue1: "path next_submission (event_pool c1) (head (submitted_event_list c1)) hs"
    unfolding kept1 using queue len1 by (rule path_cong) (simp add: fields1)
  have qtail1: "hs \<noteq> [] \<Longrightarrow> tail (submitted_event_list c1) = Some (last hs)"
    unfolding kept1 by (rule qtail)
  have h1: "h < length (event_pool c1)" using in_pool h_new len1 by simp
  have clean1: "next_submission (event_pool c1 ! h) = None"
    using fields1 clean h_fs by simp
  from notify_submitted_enqueues [OF queue1 qtail1 head1 h1 h_hs clean1]
  obtain c2 where
    run2: "iree_hal_cuda_tracing_notify_submitted c1 el1 = Inr c2"
    and queue2: "path next_submission (event_pool c2) (head (submitted_event_list c2)) (hs @ [h])"
    and len2: "length (event_pool c2) = length (event_pool c1)"
    and fields2: "\<forall>j. event (event_pool c2 ! j) = event (event_pool c1 ! j) \<and>
          next_in_command_buffer (event_pool c2 ! j) =
            next_in_command_buffer (event_pool c1 ! j) \<and>
          was_submitted (event_pool c2 ! j) = was_submitted (event_pool c1 ! j)"
    and kept2: "id' c2 = id' c1" "base_event c2 = base_event c1"
    by blast
  \<comment> \<open>the collection\<close>
  define chain' where "chain' k = (if k = h then ?new else chain k)" for k
  have chains2: "\<forall>k \<in> set (hs @ [h]).
      path next_in_command_buffer (event_pool c2) (Some k) (chain' k)"
  proof
    fix k assume k: "k \<in> set (hs @ [h])"
    show "path next_in_command_buffer (event_pool c2) (Some k) (chain' k)"
    proof (cases "k = h")
      case True
      from path1 have "path next_in_command_buffer (event_pool c2) (head el1) ?new"
        using len2 by (rule path_cong) (simp add: fields2)
      with True head1 show ?thesis by (simp add: chain'_def)
    next
      case False
      with k have khs: "k \<in> set hs" by simp
      with chains have p: "path next_in_command_buffer (event_pool c) (Some k) (chain k)" by simp
      from khs apart sub have away: "\<forall>x \<in> set (chain k). x \<notin> set ?new" by blast
      from p have "path next_in_command_buffer (event_pool c2) (Some k) (chain k)"
      proof (rule path_cong)
        show "length (event_pool c2) = length (event_pool c)" using len2 len1 by simp
        show "\<forall>x\<in>set (chain k). next_in_command_buffer (event_pool c2 ! x) =
            next_in_command_buffer (event_pool c ! x)"
          using away frame1 fields2 by simp
      qed
      with False show ?thesis by (simp add: chain'_def)
    qed
  qed
  from collect_walk [OF queue2 chains2, of symbols snk]
  obtain c3 where
    run3: "iree_hal_cuda_tracing_context_collect symbols c2 snk =
        Some (Inr (c3, snk @ concat (map (\<lambda>k. map (resolved symbols c2)
                                            (takeWhile (ready symbols c2) (chain' k))) (hs @ [h]))))"
    and empty3: "head (submitted_event_list c3) = None"
    by blast
  have same_resolved: "resolved symbols c2 = resolved symbols c"
    by (rule ext) (simp add: resolved_def kept2 kept1 fields2 fields1)
  have same_ready: "ready symbols c2 = ready symbols c"
    by (rule ext) (simp add: ready_def fields2 fields1)
  have all_ready: "takeWhile (ready symbols c) (chain' k) = chain' k"
    if "k \<in> set (hs @ [h])" for k
  proof -
    from chains2 that have "path next_in_command_buffer (event_pool c2) (Some k) (chain' k)"
      by blast
    from path_in_pool [OF this] have "\<forall>x \<in> set (chain' k). x < length (event_pool c)"
      using len2 len1 by simp
    with rdy show ?thesis by (simp add: takeWhile_eq_all_conv)
  qed
  have sink3: "concat (map (\<lambda>k. map (resolved symbols c2)
                               (takeWhile (ready symbols c2) (chain' k))) (hs @ [h])) =
      concat (map (\<lambda>k. map (resolved symbols c) (chain k)) hs) @ map (resolved symbols c) ?new"
  proof -
    have A: "map (\<lambda>k. map (resolved symbols c2) (takeWhile (ready symbols c2) (chain' k))) (hs @ [h]) =
        map (\<lambda>k. map (resolved symbols c) (chain' k)) (hs @ [h])"
      unfolding same_resolved same_ready using all_ready by (intro map_cong) simp_all
    have B: "map (\<lambda>k. map (resolved symbols c) (chain' k)) hs =
        map (\<lambda>k. map (resolved symbols c) (chain k)) hs"
      using h_hs by (intro map_cong) (auto simp: chain'_def)
    have C: "chain' h = ?new" by (simp add: chain'_def)
    show ?thesis unfolding A by (simp add: B C)
  qed
  \<comment> \<open>the run of the client\<close>
  have ids: "?ids = ?new"
  proof (rule map_idI)
    fix x assume "x \<in> set ?new"
    with in_pool small have "x < 2 ^ 16" by fastforce
    then show "to_uint16 (to_uint32 x) = x" by (simp add: to_uint16_def to_uint32_def)
  qed
  have ids32: "map (fst \<circ> snd) (map (resolved symbols c) ?new) = ?new"
  proof -
    have "map (fst \<circ> snd) (map (resolved symbols c) ?new) = map to_uint32 ?new"
      by (simp add: resolved_def comp_def)
    also have "\<dots> = ?new"
    proof (rule map_idI)
      fix x assume "x \<in> set ?new"
      with in_pool small have "x < 2 ^ 16" by fastforce
      then show "to_uint32 x = x" by (simp add: to_uint32_def)
    qed
    finally show ?thesis .
  qed
  have run: "client_run assertions (replicate n (Insert_Query 0) @ calls)
       \<lparr>ctx = c, event_lists = [?el], notified = snk, issued = []\<rparr> =
     Some (Inr \<lparr>ctx = c3, event_lists = [el1],
                notified = snk @ concat (map (\<lambda>k. map (resolved symbols c) (chain k)) hs) @
                           map (resolved symbols c) ?new,
                issued = ?new\<rparr>)"
    unfolding run1 using run2 run3 [unfolded sink3] by (simp add: calls_def client_call_def ids)
  from free have "distinct fs" by (rule path_distinct)
  then have dist: "distinct ?new" by (rule distinct_take)
  from n have len: "length ?new = n" by simp
  from noop run dist len ids32 empty3 show ?thesis by (simp add: calls_def)
qed

text \<open>
  C6 (the code differs). Capacity 2, without assertions, every device call
  succeeds. Two lists take one query each (ids 0 and 1), both are submitted
  and collected. Free of the first list finds the free list empty and
  returns early, without resetting \<open>next_submission\<close> of slot 0, which still
  points to slot 1. A third list then takes slot 0 as its only query and is
  submitted: the queue holds this one chain of one query. Collect reports
  id 0 and then follows the stale \<open>next_submission\<close> to slot 1 and reports
  id 1 as well: two notifications for a chain built with one InsertQuery, the
  second for an id that is not in the chain.
\<close>

theorem one_query_chain_reported_twice:
  "fresh_run_lists 2 3 False
     [Insert_Query 0, Insert_Query 1, Notify_Submitted 0, Notify_Submitted 1,
      Collect_Context ready_device, Free_List 0, Insert_Query 2, Notify_Submitted 2] =
     Some (Inr \<lparr>ctx =
        \<lparr>id' = 1, base_event = 102, event_freelist_head = None,
         submitted_event_list = \<lparr>head = Some 0, tail = Some 0\<rparr>,
         query_capacity = 2, verbosity = 0,
         event_pool =
           [\<lparr>event = 100, next_in_command_buffer = None, next_submission = Some 1,
             was_submitted = True\<rparr>,
            \<lparr>event = 101, next_in_command_buffer = None, next_submission = None,
             was_submitted = True\<rparr>]\<rparr>,
        event_lists = [\<lparr>head = Some 0, tail = Some 0\<rparr>, \<lparr>head = Some 1, tail = Some 1\<rparr>,
                       \<lparr>head = Some 0, tail = Some 0\<rparr>],
        notified = [(1, 0, 100), (1, 1, 101)], issued = [0, 1, 0]\<rparr>) \<and>
   fresh_run_lists 2 3 False
     [Insert_Query 0, Insert_Query 1, Notify_Submitted 0, Notify_Submitted 1,
      Collect_Context ready_device, Free_List 0, Insert_Query 2, Notify_Submitted 2,
      Collect_Context ready_device] =
     Some (Inr \<lparr>ctx =
        \<lparr>id' = 1, base_event = 102, event_freelist_head = None,
         submitted_event_list = \<lparr>head = None, tail = Some 0\<rparr>,
         query_capacity = 2, verbosity = 0,
         event_pool =
           [\<lparr>event = 100, next_in_command_buffer = None, next_submission = Some 1,
             was_submitted = True\<rparr>,
            \<lparr>event = 101, next_in_command_buffer = None, next_submission = None,
             was_submitted = True\<rparr>]\<rparr>,
        event_lists = [\<lparr>head = Some 0, tail = Some 0\<rparr>, \<lparr>head = Some 1, tail = Some 1\<rparr>,
                       \<lparr>head = Some 0, tail = Some 0\<rparr>],
        notified = [(1, 0, 100), (1, 1, 101), (1, 0, 100), (1, 1, 101)],
        issued = [0, 1, 0]\<rparr>)"
  by (simp add: model_defs fresh_run_lists_def)

end
